theory Spec2Isabelle
  imports Complex_Main
begin

section \<open>Computer vision with PyTorch: the notebook's own code\<close>

text \<open>
  The repository is a pair of near-identical notebooks. Of their own code, this theory
  has the accuracy function, the model class and its instance, the two data loaders,
  the training and testing loops and the cell that draws a random test sample.
  Everything else in the notebooks is a call into PyTorch, torchvision or the Python
  standard library.

  Python's own numbers are modelled as Python has them: integers are \<^typ>\<open>int\<close>, and a
  float is an IEEE 754 binary64 value with every operation rounded to nearest, ties to
  even. What PyTorch computes inside its float32 kernels (the linear layers, the loss,
  the argmax) is not in the repository: those operations are arguments of the
  functions that call them.
\<close>

subsection \<open>Exceptions\<close>

datatype exn =
  RuntimeError
  | ZeroDivisionError
  | OverflowError
  | IndexError
  | ValueError
  | TypeError

text \<open>Sequencing of calls that may raise: the first exception ends the computation.\<close>

definition and_then :: "exn + 'a \<Rightarrow> ('a \<Rightarrow> exn + 'b) \<Rightarrow> exn + 'b" where
  "and_then r f = (case r of Inl e \<Rightarrow> Inl e | Inr x \<Rightarrow> f x)"

subsection \<open>Python floats\<close>

text \<open>
  A Python float is a binary64 value: a finite number, an infinity or a NaN. A finite
  value is given by the real number it stands for; the sign of a zero is not kept,
  since no operation below can tell the two zeros apart.
\<close>

datatype float64 = Finite real | PlusInf | MinusInf | NaN

definition round_half_even :: "real \<Rightarrow> int" where
  "round_half_even y =
     (let f = \<lfloor>y\<rfloor>; d = y - of_int f
      in if d < 1 / 2 then f else if 1 / 2 < d then f + 1 else if even f then f else f + 1)"

function halvings :: "real \<Rightarrow> nat" where
  "halvings x = (if 2 \<le> x then Suc (halvings (x / 2)) else 0)"
  by pat_completeness auto
termination
proof (relation "measure (\<lambda>x. nat \<lfloor>x\<rfloor>)")
  show "wf (measure (\<lambda>x. nat \<lfloor>x::real\<rfloor>))" by simp
next
  fix x :: real
  assume "2 \<le> x"
  then have "x / 2 \<le> x - 1" by simp
  then have "\<lfloor>x / 2\<rfloor> \<le> \<lfloor>x - 1\<rfloor>" by (rule floor_mono)
  moreover have "2 \<le> \<lfloor>x\<rfloor>" using \<open>2 \<le> x\<close> by (simp add: le_floor_iff)
  ultimately show "(x / 2, x) \<in> measure (\<lambda>x. nat \<lfloor>x\<rfloor>)" by simp
qed

function doublings :: "real \<Rightarrow> nat" where
  "doublings x = (if 0 < x \<and> x < 1 then Suc (doublings (2 * x)) else 0)"
  by pat_completeness auto
termination
proof (relation "measure (\<lambda>x. nat \<lceil>1 / x\<rceil>)")
  show "wf (measure (\<lambda>x. nat \<lceil>1 / (x::real)\<rceil>))" by simp
next
  fix x :: real
  assume a: "0 < x \<and> x < 1"
  then have t: "1 < 1 / x" by simp
  have h: "1 / (2 * x) = (1 / x) / 2" by simp
  have c1: "1 < \<lceil>1 / x\<rceil>" using t by (simp only: less_ceiling_iff of_int_1)
  have "\<lceil>(1 / x) / 2\<rceil> < \<lceil>1 / x\<rceil>"
  proof (cases "1 / x \<le> 2")
    case True
    then have "(1 / x) / 2 \<le> 1" by simp
    then have "\<lceil>(1 / x) / 2\<rceil> \<le> 1" by (simp only: ceiling_le_iff of_int_1)
    then show ?thesis using c1 by linarith
  next
    case False
    then have "(1 / x) / 2 \<le> 1 / x - 1" by simp
    then have "\<lceil>(1 / x) / 2\<rceil> \<le> \<lceil>1 / x - 1\<rceil>" by (rule ceiling_mono)
    then show ?thesis by simp
  qed
  moreover have "0 < \<lceil>1 / x\<rceil>" using c1 by linarith
  ultimately show "(2 * x, x) \<in> measure (\<lambda>x. nat \<lceil>1 / x\<rceil>)"
    unfolding h[symmetric] by simp
qed

definition exponent :: "real \<Rightarrow> int" where
  "exponent x = (if 1 \<le> \<bar>x\<bar> then int (halvings \<bar>x\<bar>) else - int (doublings \<bar>x\<bar>))"

definition ulp64 :: "real \<Rightarrow> real" where
  "ulp64 x = 2 powi (max (exponent x) (- 1022) - 52)"

definition rounded :: "real \<Rightarrow> real" where
  "rounded x = of_int (round_half_even (x / ulp64 x)) * ulp64 x"

definition round64 :: "real \<Rightarrow> float64" where
  "round64 x =
     (let r = rounded x
      in if 2 ^ 1024 \<le> r then PlusInf else if r \<le> - (2 ^ 1024) then MinusInf else Finite r)"

text \<open>
  Where the mathematical result is infinite, or has no value, IEEE 754 fixes the
  outcome by the signs of the operands.
\<close>

definition signed_inf :: "real \<Rightarrow> float64" where
  "signed_inf s = (if s = 0 then NaN else if 0 < s then PlusInf else MinusInf)"

fun fadd :: "float64 \<Rightarrow> float64 \<Rightarrow> float64" where
  "fadd NaN y = NaN"
| "fadd x NaN = NaN"
| "fadd (Finite a) (Finite b) = round64 (a + b)"
| "fadd PlusInf MinusInf = NaN"
| "fadd MinusInf PlusInf = NaN"
| "fadd PlusInf y = PlusInf"
| "fadd x PlusInf = PlusInf"
| "fadd MinusInf y = MinusInf"
| "fadd x MinusInf = MinusInf"

text \<open>Product and quotient of a float with a finite float \<open>b\<close>; for the quotient \<open>b \<noteq> 0\<close>.\<close>

definition fmul_finite :: "float64 \<Rightarrow> real \<Rightarrow> float64" where
  "fmul_finite x b =
     (case x of
        Finite a \<Rightarrow> round64 (a * b)
      | PlusInf \<Rightarrow> signed_inf b
      | MinusInf \<Rightarrow> signed_inf (- b)
      | NaN \<Rightarrow> NaN)"

definition fdiv_finite :: "float64 \<Rightarrow> real \<Rightarrow> float64" where
  "fdiv_finite x b =
     (case x of
        Finite a \<Rightarrow> round64 (a / b)
      | PlusInf \<Rightarrow> signed_inf b
      | MinusInf \<Rightarrow> signed_inf (- b)
      | NaN \<Rightarrow> NaN)"

text \<open>
  The operations of Python the notebook uses on floats. An int that meets a float is
  converted first, which raises \<open>OverflowError\<close> when it is too large. The true
  division of two ints is the correctly rounded quotient; it raises
  \<open>ZeroDivisionError\<close> on a zero divisor and \<open>OverflowError\<close> when the quotient is
  too large for a float. The division of a float raises on a zero divisor as well.
\<close>

definition int_to_float :: "int \<Rightarrow> exn + real" where
  "int_to_float n =
     (case round64 (of_int n) of Finite b \<Rightarrow> Inr b | _ \<Rightarrow> Inl OverflowError)"

definition int_truediv :: "int \<Rightarrow> int \<Rightarrow> exn + float64" where
  "int_truediv a b =
     (if b = 0 then Inl ZeroDivisionError
      else case round64 (of_int a / of_int b) of
             Finite q \<Rightarrow> Inr (Finite q)
           | _ \<Rightarrow> Inl OverflowError)"

definition float_mul_int :: "float64 \<Rightarrow> int \<Rightarrow> exn + float64" where
  "float_mul_int x n = and_then (int_to_float n) (\<lambda>b. Inr (fmul_finite x b))"

definition float_truediv_int :: "float64 \<Rightarrow> int \<Rightarrow> exn + float64" where
  "float_truediv_int x n =
     and_then (int_to_float n) (\<lambda>b.
       if b = 0 then Inl ZeroDivisionError else Inr (fdiv_finite x b))"

subsection \<open>Label tensors and \<open>accuracy_fn\<close>\<close>

text \<open>
  A label tensor is a one-dimensional integer tensor, a list of class indices.

  \<open>torch.eq\<close> compares elementwise. On one-dimensional tensors of different lengths
  it broadcasts a tensor of length one and raises on any other pair of lengths.
\<close>

type_synonym labels = "int list"

definition torch_eq :: "labels \<Rightarrow> labels \<Rightarrow> exn + bool list" where
  "torch_eq a b =
     (if length a = length b then Inr (map2 (\<lambda>x y. x = y) a b)
      else if length a = 1 then Inr (map (\<lambda>y. hd a = y) b)
      else if length b = 1 then Inr (map (\<lambda>x. x = hd b) a)
      else Inl RuntimeError)"

text \<open>\<open>.sum().item()\<close> of a boolean tensor: the number of true entries, a Python int.\<close>

definition sum_item :: "bool list \<Rightarrow> nat" where
  "sum_item bs = length (filter (\<lambda>b. b) bs)"

text \<open>
  \<^verbatim>\<open>
  def accuracy_fn(y_true, y_pred):
      correct = torch.eq(y_true, y_pred).sum().item()
      acc = (correct / len(y_pred)) * 100
      return acc
  \<close>
  \<open>correct / len(y_pred)\<close> is the true division of two Python ints, and its float is
  then multiplied by the int 100: the result is rounded twice.
\<close>

definition accuracy_fn :: "labels \<Rightarrow> labels \<Rightarrow> exn + float64" where
  "accuracy_fn y_true y_pred =
     and_then (torch_eq y_true y_pred) (\<lambda>eqs.
       let correct = sum_item eqs in
       and_then (int_truediv (int correct) (int (length y_pred))) (\<lambda>q.
         float_mul_int q 100))"

text \<open>The number of positions at which two label tensors agree.\<close>

definition matches :: "labels \<Rightarrow> labels \<Rightarrow> nat" where
  "matches y_true y_pred = card {i. i < length y_pred \<and> y_true ! i = y_pred ! i}"

subsection \<open>Tensors\<close>

text \<open>
  A tensor is stored as PyTorch stores it: a shape and the entries in row-major order.
  The type of the entries is left open; for the float32 tensors of the notebook it is
  whatever represents a float32. A tensor is well formed when it has as many entries
  as its shape says.
\<close>

record 'a tensor =
  shape :: "nat list"
  data :: "'a list"

definition wf_tensor :: "'a tensor \<Rightarrow> bool" where
  "wf_tensor t = (length (data t) = prod_list (shape t))"

text \<open>The \<open>n\<close> consecutive rows of width \<open>k\<close> of a row-major entry list.\<close>

definition rows :: "nat \<Rightarrow> nat \<Rightarrow> 'a list \<Rightarrow> 'a list list" where
  "rows k n xs = map (\<lambda>i. take k (drop (i * k) xs)) [0..<n]"

text \<open>\<open>torch.unsqueeze(img, dim=0)\<close> adds a leading dimension of size one.\<close>

definition unsqueeze0 :: "'a tensor \<Rightarrow> 'a tensor" where
  "unsqueeze0 t = t\<lparr>shape := 1 # shape t\<rparr>"

subsection \<open>The layers of \<open>torch.nn\<close> the model uses\<close>

text \<open>
  \<open>nn.Flatten()\<close> has \<open>start_dim=1\<close> and \<open>end_dim=-1\<close>: it keeps the first dimension
  and merges all the others. A tensor without a dimension 1 is rejected.
\<close>

definition Flatten_forward :: "'a tensor \<Rightarrow> exn + 'a tensor" where
  "Flatten_forward x =
     (case shape x of
        [] \<Rightarrow> Inl IndexError
      | [n] \<Rightarrow> Inl IndexError
      | n # rest \<Rightarrow> Inr (x\<lparr>shape := [n, prod_list rest]\<rparr>))"

text \<open>
  \<open>nn.Linear(in_features, out_features)\<close> holds a weight of shape
  \<open>[out_features, in_features]\<close> and a bias of shape \<open>[out_features]\<close>, both drawn at
  random by the constructor, and applies \<open>y = x W\<^sup>T + b\<close> to the last dimension of its
  input: output feature \<open>j\<close> of an input row comes from row \<open>j\<close> of the weight, entry
  \<open>j\<close> of the bias and the input row. An input whose last dimension is not
  \<open>in_features\<close> is rejected.

  How the float32 kernel of the library evaluates \<open>w \<cdot> v + b\<close> (the order of the sum,
  the roundings, overflow) is not in the repository. It is the argument \<open>ker\<close>: the
  value the library computes from a weight row, a bias entry and an input row.
\<close>

record 'a linear_layer =
  in_features :: nat
  out_features :: nat
  weight :: "'a list list"
  bias :: "'a list"

definition wf_linear :: "'a linear_layer \<Rightarrow> bool" where
  "wf_linear L = (length (weight L) = out_features L
                  \<and> list_all (\<lambda>w. length w = in_features L) (weight L)
                  \<and> length (bias L) = out_features L)"

type_synonym 'a kernel = "'a list \<Rightarrow> 'a \<Rightarrow> 'a list \<Rightarrow> 'a"

definition Linear_forward :: "'a kernel \<Rightarrow> 'a linear_layer \<Rightarrow> 'a tensor \<Rightarrow> exn + 'a tensor" where
  "Linear_forward ker L x =
     (if shape x = [] \<or> last (shape x) \<noteq> in_features L then Inl RuntimeError
      else Inr \<lparr>shape = butlast (shape x) @ [out_features L],
                data = concat (map (\<lambda>v. map2 (\<lambda>w b. ker w b v) (weight L) (bias L))
                         (rows (in_features L) (prod_list (butlast (shape x))) (data x)))\<rparr>)"


text \<open>
  The modules the notebook builds. \<open>nn.Sequential\<close> feeds its input through its
  modules in order, each one receiving the output of the one before.
\<close>

datatype 'a module =
  Flatten
  | Linear "'a linear_layer"
  | Sequential "'a module list"

fun call_module :: "'a kernel \<Rightarrow> 'a module \<Rightarrow> 'a tensor \<Rightarrow> exn + 'a tensor" where
  "call_module ker Flatten x = Flatten_forward x"
| "call_module ker (Linear L) x = Linear_forward ker L x"
| "call_module ker (Sequential ms) x =
     fold (\<lambda>m r. and_then r (call_module ker m)) ms (Inr x)"

subsection \<open>The model class and \<open>model_0\<close>\<close>

text \<open>
  \<^verbatim>\<open>
  class FashionMNISTBaselineModel(nn.Module):
      def __init__(self, input_shape: int, hidden_units: int, output_shape: int):
          super().__init__()
          self.layer_stack = nn.Sequential(
              nn.Flatten(),
              nn.Linear(in_features=input_shape, out_features=hidden_units),
              nn.Linear(in_features=hidden_units, out_features=output_shape),
          )

      def forward(self, x):
          return self.layer_stack(x)
  \<close>
  The values the two \<open>nn.Linear\<close> constructors draw for their weights and biases are
  arguments of the model's constructor here.
\<close>

record 'a FashionMNISTBaselineModel =
  layer_stack :: "'a module"

definition init_model ::
  "nat \<Rightarrow> nat \<Rightarrow> nat \<Rightarrow> 'a list list \<Rightarrow> 'a list \<Rightarrow> 'a list list \<Rightarrow> 'a list
   \<Rightarrow> 'a FashionMNISTBaselineModel" where
  "init_model input_shape hidden_units output_shape W1 b1 W2 b2 =
     \<lparr>layer_stack = Sequential
        [Flatten,
         Linear \<lparr>in_features = input_shape, out_features = hidden_units,
                 weight = W1, bias = b1\<rparr>,
         Linear \<lparr>in_features = hidden_units, out_features = output_shape,
                 weight = W2, bias = b2\<rparr>]\<rparr>"

definition forward ::
  "'a kernel \<Rightarrow> 'a FashionMNISTBaselineModel \<Rightarrow> 'a tensor \<Rightarrow> exn + 'a tensor" where
  "forward ker self x = call_module ker (layer_stack self) x"

text \<open>
  \<open>class_names = train_data.classes\<close>: the ten garment classes of FashionMNIST, as
  torchvision lists them.
\<close>

definition class_names :: "string list" where
  "class_names = [''T-shirt/top'', ''Trouser'', ''Pullover'', ''Dress'', ''Coat'',
                  ''Sandal'', ''Shirt'', ''Sneaker'', ''Bag'', ''Ankle boot'']"

text \<open>
  \<^verbatim>\<open>
  model_0 = FashionMNISTBaselineModel(
      input_shape=784,  # one for every pixel (28x28)
      hidden_units=10,  # how many units in the hidden layer
      output_shape=len(class_names),  # one for every class
  )
  \<close>
\<close>

definition model_0 ::
  "'a list list \<Rightarrow> 'a list \<Rightarrow> 'a list list \<Rightarrow> 'a list \<Rightarrow> 'a FashionMNISTBaselineModel" where
  "model_0 W1 b1 W2 b2 = init_model 784 10 (length class_names) W1 b1 W2 b2"

subsection \<open>Datasets and dataloaders\<close>

text \<open>
  A dataset is the list of its samples, each an image with its label.
  \<open>len(dataset)\<close> is the length of the list. \<open>dataset[i]\<close> counts a negative index
  from the end and raises \<open>IndexError\<close> outside the range.
\<close>

definition getitem :: "'a list \<Rightarrow> int \<Rightarrow> exn + 'a" where
  "getitem ds i =
     (if 0 \<le> i \<and> i < int (length ds) then Inr (ds ! nat i)
      else if i < 0 \<and> - int (length ds) \<le> i then Inr (ds ! nat (int (length ds) + i))
      else Inl IndexError)"

text \<open>
  \<^verbatim>\<open>
  BATCH_SIZE = 32
  train_dataloader = DataLoader(train_data, batch_size=BATCH_SIZE, shuffle=True)
  test_dataloader = DataLoader(test_data, batch_size=BATCH_SIZE, shuffle=False)
  \<close>
  Neither call passes \<open>drop_last\<close>, so the loaders keep a last batch that is not full.
\<close>

record 'a DataLoader =
  dataset :: "'a list"
  batch_size :: nat
  shuffle :: bool

definition BATCH_SIZE :: nat where
  "BATCH_SIZE = 32"

definition train_dataloader :: "'a list \<Rightarrow> 'a DataLoader" where
  "train_dataloader train_data =
     \<lparr>dataset = train_data, batch_size = BATCH_SIZE, shuffle = True\<rparr>"

definition test_dataloader :: "'a list \<Rightarrow> 'a DataLoader" where
  "test_dataloader test_data =
     \<lparr>dataset = test_data, batch_size = BATCH_SIZE, shuffle = False\<rparr>"

text \<open>
  The batch sampler of a loader that keeps the last batch: it walks through the sample
  indices, fills the current batch, yields it when it holds \<open>batch_size\<close> indices,
  and at the end yields what is left when that is not empty.
\<close>

fun batch_sampler :: "nat \<Rightarrow> nat list \<Rightarrow> nat list \<Rightarrow> nat list list" where
  "batch_sampler bs batch [] = (if 0 < length batch then [batch] else [])"
| "batch_sampler bs batch (idx # sampler) =
     (if length (batch @ [idx]) = bs then (batch @ [idx]) # batch_sampler bs [] sampler
      else batch_sampler bs (batch @ [idx]) sampler)"

text \<open>
  With \<open>shuffle=True\<close> the indices come in the random order \<open>perm\<close> drawn for the epoch, a
  permutation of \<open>0, \<dots>, len(dataset) - 1\<close>; otherwise they come in increasing order.
\<close>

definition is_permutation :: "nat list \<Rightarrow> nat \<Rightarrow> bool" where
  "is_permutation perm n = (length perm = n \<and> set perm = {..<n})"

definition iter_batches :: "'a DataLoader \<Rightarrow> nat list \<Rightarrow> 'a list list" where
  "iter_batches dl perm =
     (let sampler = (if shuffle dl then perm else [0..<length (dataset dl)])
      in map (map (\<lambda>i. dataset dl ! i)) (batch_sampler (batch_size dl) [] sampler))"

text \<open>\<open>len(dataloader)\<close>: the number of batches, the last one counted when it is not full.\<close>

definition len_dataloader :: "'a DataLoader \<Rightarrow> nat" where
  "len_dataloader dl = (length (dataset dl) + batch_size dl - 1) div batch_size dl"

text \<open>
  The loader hands each batch over as a pair \<open>(X, y)\<close>: the images of the batch and the
  tensor of their labels.
\<close>

definition collate :: "('x \<times> int) list \<Rightarrow> 'x list \<times> labels" where
  "collate batch = (map fst batch, map snd batch)"

subsection \<open>The testing loop\<close>

text \<open>
  \<^verbatim>\<open>
  test_loss, test_acc = 0, 0
  model_0.eval()
  with torch.inference_mode():
      for X, y in test_dataloader:
          X, y = X.to(device), y.to(device)
          test_pred = model_0(X)
          test_pred.to(device)
          test_loss += loss_fn(test_pred, y)
          test_acc += accuracy_fn(y_true=y, y_pred=test_pred.argmax(dim=1))
      test_loss /= len(test_dataloader)
      test_acc /= len(test_dataloader)
  \<close>
  The second notebook has the same loop without the three \<open>.to(device)\<close> calls. A
  move to the device returns a tensor with the same entries, and the result of
  \<open>test_pred.to(device)\<close> is dropped: \<open>X\<close> and \<open>y\<close> stand for the batch on either side
  of the move.

  The model is an argument, and so is what the loop calls in PyTorch: the loss function,
  \<open>argmax(dim=1)\<close>, and the arithmetic of the loss, which starts from the int 0, adds
  loss tensors and is divided by an int. \<open>test_acc\<close> is a Python float: it starts from
  the int 0, \<open>accuracy_fn\<close> returns a float, and the sum is divided by an int.

  \<open>batches\<close> is what the loader yields in the epoch, so \<open>len(test_dataloader)\<close> is its
  length. With no batch at all both accumulators are still the int 0, and the first
  division raises.
\<close>

record ('p, 'l) torch_ops =
  loss_fn :: "'p \<Rightarrow> labels \<Rightarrow> exn + 'l"
  argmax_dim1 :: "'p \<Rightarrow> exn + labels"
  loss_zero :: 'l
  loss_add :: "'l \<Rightarrow> 'l \<Rightarrow> 'l"
  loss_div :: "'l \<Rightarrow> int \<Rightarrow> 'l"

fun test_batches ::
  "('x \<Rightarrow> exn + 'p) \<Rightarrow> ('p, 'l) torch_ops \<Rightarrow> ('x \<times> labels) list \<Rightarrow> 'l \<times> float64
   \<Rightarrow> exn + 'l \<times> float64" where
  "test_batches model ops [] (test_loss, test_acc) = Inr (test_loss, test_acc)"
| "test_batches model ops ((X, y) # rest) (test_loss, test_acc) =
     and_then (model X) (\<lambda>test_pred.
     and_then (loss_fn ops test_pred y) (\<lambda>l.
     and_then (argmax_dim1 ops test_pred) (\<lambda>y_pred.
     and_then (accuracy_fn y y_pred) (\<lambda>acc.
       test_batches model ops rest (loss_add ops test_loss l, fadd test_acc acc)))))"

definition test_loop ::
  "('x \<Rightarrow> exn + 'p) \<Rightarrow> ('p, 'l) torch_ops \<Rightarrow> ('x \<times> labels) list \<Rightarrow> exn + 'l \<times> float64" where
  "test_loop model ops batches =
     and_then (test_batches model ops batches (loss_zero ops, Finite 0)) (\<lambda>(test_loss, test_acc).
       if length batches = 0 then Inl ZeroDivisionError
       else and_then (float_truediv_int test_acc (int (length batches))) (\<lambda>acc.
              Inr (loss_div ops test_loss (int (length batches)), acc)))"

text \<open>
  The accuracy of one batch as the loop computes it: \<open>accuracy_fn\<close> of the labels and
  the argmax of the model's output.
\<close>

definition batch_accuracy ::
  "('x \<Rightarrow> exn + 'p) \<Rightarrow> ('p, 'l) torch_ops \<Rightarrow> 'x \<times> labels \<Rightarrow> exn + float64" where
  "batch_accuracy model ops b =
     and_then (model (fst b)) (\<lambda>test_pred.
     and_then (argmax_dim1 ops test_pred) (\<lambda>y_pred.
       accuracy_fn (snd b) y_pred))"

text \<open>
  The mean of a list of floats in Python's arithmetic: added from the left, starting
  from 0, and divided by their number.
\<close>

definition mean64 :: "float64 list \<Rightarrow> exn + float64" where
  "mean64 accs = float_truediv_int (foldl fadd (Finite 0) accs) (int (length accs))"

text \<open>
  An instance of the arguments, for scores that are finite numbers: the argmax of a
  row is the index of its first largest score, and the loss is left out.
\<close>

fun argmax_from :: "nat \<Rightarrow> real \<Rightarrow> nat \<Rightarrow> real list \<Rightarrow> nat" where
  "argmax_from best v i [] = best"
| "argmax_from best v i (x # xs) =
     (if v < x then argmax_from i x (Suc i) xs else argmax_from best v (Suc i) xs)"

definition argmax_row :: "real list \<Rightarrow> nat" where
  "argmax_row r = argmax_from 0 (hd r) 1 (tl r)"

definition finite_scores :: "(real list list, unit) torch_ops" where
  "finite_scores =
     \<lparr>loss_fn = (\<lambda>pred y. Inr ()),
      argmax_dim1 = (\<lambda>pred. if list_ex (\<lambda>r. r = []) pred then Inl IndexError
                              else Inr (map (\<lambda>r. int (argmax_row r)) pred)),
      loss_zero = (),
      loss_add = (\<lambda>a b. ()),
      loss_div = (\<lambda>a n. ())\<rparr>"

subsection \<open>Drawing a random test sample\<close>

text \<open>
  \<^verbatim>\<open>
  random_garment_idx = random.randint(0, len(test_data))
  sample_image, ground_truth_label = test_data[random_garment_idx]
  \<close>
  \<open>random.randint(a, b)\<close> returns an integer \<open>N\<close> with \<open>a \<le> N \<le> b\<close>: both ends are
  possible draws. The second notebook draws from \<open>train_data\<close> in the same way.
\<close>

definition randint :: "int \<Rightarrow> int \<Rightarrow> int set" where
  "randint a b = {a..b}"

definition random_garment_idx :: "'a list \<Rightarrow> int set" where
  "random_garment_idx test_data = randint 0 (int (length test_data))"

definition sample_at :: "'a list \<Rightarrow> int \<Rightarrow> exn + 'a" where
  "sample_at test_data idx = getitem test_data idx"

subsection \<open>The training loop as a sequence of calls\<close>

text \<open>
  What the body of the inner training loop does outside its own arithmetic is a
  sequence of calls into PyTorch; the loop contributes the calls of its body once per
  batch. A call site is named by its source text. What a call does to the state of
  the interpreter, or the exception it raises, is given by the library \<open>lib\<close>, which
  is arbitrary.

  Running the calls makes them in order. The first call that raises ends the run with
  that exception: the loop body has no \<open>try\<close> statement. The result comes with the
  list of the calls made. The iterator's last call, whose \<open>StopIteration\<close> ends the
  loop, is not among the calls of an iteration.
\<close>

type_synonym call = string

fun run_calls :: "(call \<Rightarrow> 's \<Rightarrow> 'e + 's) \<Rightarrow> call list \<Rightarrow> 's \<Rightarrow> ('e + 's) \<times> call list" where
  "run_calls lib [] s = (Inr s, [])"
| "run_calls lib (c # cs) s =
     (case lib c s of
        Inl e \<Rightarrow> (Inl e, [c])
      | Inr s' \<Rightarrow> (case run_calls lib cs s' of (r, made) \<Rightarrow> (r, c # made)))"

subsection \<open>The body of the training loop\<close>

text \<open>
  \<^verbatim>\<open>
  for X, y in train_dataloader:
      X, y = X.to(device), y.to(device)
      model_0.train()
      # 1. Forward pass
      y_pred = model_0(X)
      y_pred.to(device)
      # 2. Calculate loss (per batch)
      loss = loss_fn(y_pred, y)
      train_loss += loss
      # 3. For the Optimizer set gradients of all model parameters to zero
      optimizer.zero_grad()
      # 4. Loss backward
      loss.backward()
      # 5. Optimizer step
      optimizer.step()
  \<close>
  The second notebook has the same loop body without the three \<open>.to(device)\<close> calls.
\<close>

definition training_iteration :: "call list" where
  "training_iteration =
     [''for X, y in train_dataloader'',
      ''X.to(device)'', ''y.to(device)'',
      ''model_0.train()'',
      ''model_0(X)'',
      ''y_pred.to(device)'',
      ''loss_fn(y_pred, y)'',
      ''train_loss += loss'',
      ''optimizer.zero_grad()'',
      ''loss.backward()'',
      ''optimizer.step()'']"

definition training_iteration_2 :: "call list" where
  "training_iteration_2 =
     [''for X, y in train_dataloader'',
      ''model_0.train()'',
      ''model_0(X)'',
      ''loss_fn(y_pred, y)'',
      ''train_loss += loss'',
      ''optimizer.zero_grad()'',
      ''loss.backward()'',
      ''optimizer.step()'']"

text \<open>The inner training loop over \<open>n\<close> batches.\<close>

definition training_loop :: "call list \<Rightarrow> nat \<Rightarrow> call list" where
  "training_loop iteration n = concat (replicate n iteration)"

text \<open>
  The five operations of a training step: zeroing the gradients, the forward pass,
  the loss, the backward pass and the optimizer step.
\<close>

definition zero_gradients :: call where "zero_gradients = ''optimizer.zero_grad()''"
definition forward_pass :: call where "forward_pass = ''model_0(X)''"
definition loss_computation :: call where "loss_computation = ''loss_fn(y_pred, y)''"
definition backward_pass :: call where "backward_pass = ''loss.backward()''"
definition optimizer_step :: call where "optimizer_step = ''optimizer.step()''"

definition five_operations :: "call list \<Rightarrow> call list" where
  "five_operations made =
     filter (\<lambda>c. c \<in> {zero_gradients, forward_pass, loss_computation, backward_pass,
                          optimizer_step}) made"

section \<open>Properties\<close>

subsection \<open>The exponent of a float\<close>

lemma halvings_spec:
  "1 \<le> x \<Longrightarrow> 2 ^ halvings x \<le> x \<and> x < 2 * 2 ^ halvings x"
proof (induction x rule: halvings.induct)
  case (1 x)
  show ?case
  proof (cases "2 \<le> x")
    case True
    then have "1 \<le> x / 2" by simp
    then have "2 ^ halvings (x / 2) \<le> x / 2 \<and> x / 2 < 2 * 2 ^ halvings (x / 2)"
      using "1.IH"[OF True] by simp
    moreover have "halvings x = Suc (halvings (x / 2))"
      using True by (subst halvings.simps) simp
    ultimately show ?thesis by simp
  next
    case False
    then have "halvings x = 0" by (subst halvings.simps) simp
    then show ?thesis using False "1.prems" by simp
  qed
qed

lemma doublings_spec:
  "0 < x \<Longrightarrow> x < 1 \<Longrightarrow> 1 \<le> x * 2 ^ doublings x \<and> x * 2 ^ doublings x < 2"
proof (induction x rule: doublings.induct)
  case (1 x)
  have d: "doublings x = Suc (doublings (2 * x))"
    using "1.prems" by (subst doublings.simps) simp
  show ?case
  proof (cases "2 * x < 1")
    case True
    then have "1 \<le> (2 * x) * 2 ^ doublings (2 * x) \<and> (2 * x) * 2 ^ doublings (2 * x) < 2"
      using "1.IH" "1.prems" by simp
    then show ?thesis unfolding d by (simp add: mult.assoc mult.left_commute)
  next
    case False
    then have "doublings (2 * x) = 0" by (subst doublings.simps) simp
    then show ?thesis unfolding d using False "1.prems" by simp
  qed
qed

lemma p2_add: "(2::real) powi (a + b) = 2 powi a * 2 powi b"
  by (rule power_int_add) simp

lemma p2_pos: "0 < (2::real) powi a"
  by simp

lemma p2_less_D: "(2::real) powi a < 2 powi b \<Longrightarrow> a < b"
proof (rule ccontr)
  assume l: "(2::real) powi a < 2 powi b" and "\<not> a < b"
  then have "b \<le> a" by simp
  then have "(2::real) powi b \<le> 2 powi a" by (rule power_int_increasing) simp
  then show False using l by simp
qed

lemma p2_mono: "a \<le> b \<Longrightarrow> (2::real) powi a \<le> 2 powi b"
  by (rule power_int_increasing) simp_all

lemma exponent_spec:
  assumes "x \<noteq> 0"
  shows "2 powi exponent x \<le> \<bar>x\<bar> \<and> \<bar>x\<bar> < 2 powi (exponent x + 1)"
proof (cases "1 \<le> \<bar>x\<bar>")
  case True
  then have e: "exponent x = int (halvings \<bar>x\<bar>)" by (simp add: exponent_def)
  have "(2::real) powi (int (halvings \<bar>x\<bar>) + 1) = 2 ^ halvings \<bar>x\<bar> * 2"
    unfolding p2_add by simp
  then show ?thesis using halvings_spec[OF True] unfolding e by simp
next
  case False
  then have lt: "\<bar>x\<bar> < 1" and pos: "0 < \<bar>x\<bar>" using assms by simp_all
  have e: "exponent x = - int (doublings \<bar>x\<bar>)" using False by (simp add: exponent_def)
  let ?d = "doublings \<bar>x\<bar>"
  have s: "1 \<le> \<bar>x\<bar> * 2 ^ ?d" "\<bar>x\<bar> * 2 ^ ?d < 2"
    using doublings_spec[OF pos lt] by simp_all
  have p: "(2::real) powi (- int ?d) = 1 / 2 ^ ?d"
    unfolding power_int_minus_divide by simp
  have p1: "(2::real) powi (- int ?d + 1) = (1 / 2 ^ ?d) * 2"
    unfolding p2_add p by simp
  have "1 / 2 ^ ?d \<le> \<bar>x\<bar>" using s(1) by (simp add: divide_le_eq)
  moreover have "\<bar>x\<bar> < (1 / 2 ^ ?d) * 2" using s(2) by (simp add: less_divide_eq)
  ultimately show ?thesis unfolding e p p1 by simp
qed

lemma exponent_unique:
  assumes "2 powi e \<le> \<bar>x\<bar>" and "\<bar>x\<bar> < 2 powi (e + 1)"
  shows "exponent x = e"
proof -
  have "0 < \<bar>x\<bar>" using assms(1) p2_pos[of e] by linarith
  then have nz: "x \<noteq> 0" by auto
  note s = exponent_spec[OF nz]
  have "2 powi e < (2::real) powi (exponent x + 1)" using assms(1) s by linarith
  then have a: "e < exponent x + 1" by (rule p2_less_D)
  have "2 powi exponent x < (2::real) powi (e + 1)" using assms(2) s by linarith
  then have b: "exponent x < e + 1" by (rule p2_less_D)
  show ?thesis using a b by simp
qed

subsection \<open>Rounding to an integer\<close>

lemma rhe_floor: "\<lfloor>y\<rfloor> \<le> round_half_even y \<and> round_half_even y \<le> \<lfloor>y\<rfloor> + 1"
  by (simp add: round_half_even_def Let_def)

lemma rhe_error: "\<bar>of_int (round_half_even y) - y\<bar> \<le> 1 / 2"
proof -
  have "of_int \<lfloor>y\<rfloor> \<le> y" "y < of_int \<lfloor>y\<rfloor> + 1" by linarith+
  then show ?thesis
    by (auto simp: round_half_even_def Let_def abs_le_iff)
qed

lemma rhe_of_int: "round_half_even (of_int k) = k"
  by (simp add: round_half_even_def Let_def)

lemma rhe_mono:
  assumes "y \<le> z"
  shows "round_half_even y \<le> round_half_even z"
proof (cases "\<lfloor>y\<rfloor> = \<lfloor>z\<rfloor>")
  case True
  have "y - of_int \<lfloor>y\<rfloor> \<le> z - of_int \<lfloor>z\<rfloor>" using assms True by simp
  then show ?thesis using True
    by (auto simp: round_half_even_def Let_def)
next
  case False
  have "\<lfloor>y\<rfloor> \<le> \<lfloor>z\<rfloor>" using assms by (rule floor_mono)
  then have "\<lfloor>y\<rfloor> + 1 \<le> \<lfloor>z\<rfloor>" using False by simp
  then show ?thesis using rhe_floor[of y] rhe_floor[of z] by linarith
qed

subsection \<open>Rounding to binary64\<close>

lemma ulp64_pos: "0 < ulp64 x"
  by (simp add: ulp64_def)

lemma rounded_error: "\<bar>rounded x - x\<bar> \<le> ulp64 x / 2"
proof -
  let ?u = "ulp64 x"
  have u: "0 < ?u" by (rule ulp64_pos)
  have "rounded x - x = (of_int (round_half_even (x / ?u)) - x / ?u) * ?u"
    using u by (simp add: rounded_def left_diff_distrib)
  then have "\<bar>rounded x - x\<bar> = \<bar>of_int (round_half_even (x / ?u)) - x / ?u\<bar> * ?u"
    using u by (simp add: abs_mult)
  also have "\<dots> \<le> (1 / 2) * ?u"
    using rhe_error[of "x / ?u"] u by (intro mult_right_mono) simp_all
  finally show ?thesis by simp
qed

lemma rounded_0: "rounded 0 = 0"
  using rhe_of_int[of 0] by (simp add: rounded_def)

lemma rounded_nonneg: "0 \<le> x \<Longrightarrow> 0 \<le> rounded x"
proof -
  assume "0 \<le> x"
  then have "0 \<le> x / ulp64 x" using ulp64_pos[of x] by simp
  then have "round_half_even 0 \<le> round_half_even (x / ulp64 x)" by (rule rhe_mono)
  then have "0 \<le> round_half_even (x / ulp64 x)" using rhe_of_int[of 0] by simp
  then show ?thesis using ulp64_pos[of x] by (simp add: rounded_def)
qed

lemma exponent_mono:
  assumes "0 < x" and "x \<le> y"
  shows "exponent x \<le> exponent y"
proof -
  have "2 powi exponent x \<le> \<bar>x\<bar>" using exponent_spec[of x] assms(1) by simp
  moreover have "\<bar>y\<bar> < 2 powi (exponent y + 1)" using exponent_spec[of y] assms by simp
  ultimately have "(2::real) powi exponent x < 2 powi (exponent y + 1)" using assms by simp
  then have "exponent x < exponent y + 1" by (rule p2_less_D)
  then show ?thesis by simp
qed

lemma rounded_upper:
  assumes "0 < x"
  shows "rounded x \<le> 2 powi (max (exponent x) (- 1022) + 1)"
proof -
  let ?c = "max (exponent x) (- 1022)"
  let ?u = "ulp64 x"
  have u: "?u = 2 powi (?c - 52)" by (simp add: ulp64_def)
  have split: "(2::real) powi (?c + 1) = 2 powi 53 * 2 powi (?c - 52)"
    using p2_add[of 53 "?c - 52"] by (simp add: add.commute)
  have "x < 2 powi (exponent x + 1)" using exponent_spec[of x] assms by simp
  also have "\<dots> \<le> 2 powi (?c + 1)" by (rule p2_mono) simp
  finally have "x / ?u \<le> 2 powi 53"
    unfolding split u using p2_pos[of "?c - 52"] by (simp add: divide_le_eq)
  then have "x / ?u \<le> of_int (2 ^ 53)" by simp
  then have "round_half_even (x / ?u) \<le> round_half_even (of_int (2 ^ 53))" by (rule rhe_mono)
  then have "round_half_even (x / ?u) \<le> 2 ^ 53" unfolding rhe_of_int .
  then have "(of_int (round_half_even (x / ?u)) :: real) \<le> of_int (2 ^ 53)"
    by (simp only: of_int_le_iff)
  then have "of_int (round_half_even (x / ?u)) * ?u \<le> of_int (2 ^ 53) * ?u"
    using ulp64_pos[of x] by (intro mult_right_mono) simp_all
  then show ?thesis unfolding rounded_def split u by simp
qed

lemma rounded_lower:
  assumes "0 < x" and "- 1022 \<le> exponent x"
  shows "2 powi exponent x \<le> rounded x"
proof -
  let ?e = "exponent x"
  let ?u = "ulp64 x"
  have u: "?u = 2 powi (?e - 52)" using assms(2) by (simp add: ulp64_def max_def)
  have split: "(2::real) powi ?e = 2 powi 52 * 2 powi (?e - 52)"
    using p2_add[of 52 "?e - 52"] by simp
  have "2 powi ?e \<le> x" using exponent_spec[of x] assms by simp
  then have "2 powi 52 \<le> x / ?u"
    unfolding u using p2_pos[of "?e - 52"] split by (simp add: le_divide_eq)
  then have "of_int (2 ^ 52) \<le> x / ?u" by simp
  then have "round_half_even (of_int (2 ^ 52)) \<le> round_half_even (x / ?u)" by (rule rhe_mono)
  then have "2 ^ 52 \<le> round_half_even (x / ?u)" unfolding rhe_of_int .
  then have "(of_int (2 ^ 52) :: real) \<le> of_int (round_half_even (x / ?u))"
    by (simp only: of_int_le_iff)
  then have "of_int (2 ^ 52) * ?u \<le> of_int (round_half_even (x / ?u)) * ?u"
    using ulp64_pos[of x] by (intro mult_right_mono) simp_all
  then show ?thesis unfolding rounded_def split u by simp
qed

lemma rounded_mono:
  assumes "0 \<le> x" and "x \<le> y"
  shows "rounded x \<le> rounded y"
proof (cases "x = 0")
  case True
  then show ?thesis using rounded_0 rounded_nonneg[of y] assms by simp
next
  case False
  then have x: "0 < x" and y: "0 < y" using assms by simp_all
  let ?cx = "max (exponent x) (- 1022)"
  let ?cy = "max (exponent y) (- 1022)"
  have le: "?cx \<le> ?cy" using exponent_mono[OF x assms(2)] by simp
  show ?thesis
  proof (cases "?cx = ?cy")
    case True
    then have u: "ulp64 x = ulp64 y" by (simp add: ulp64_def)
    have "x / ulp64 y \<le> y / ulp64 y"
      using assms(2) ulp64_pos[of y] by (simp add: divide_right_mono)
    then have "round_half_even (x / ulp64 y) \<le> round_half_even (y / ulp64 y)" by (rule rhe_mono)
    then have "(of_int (round_half_even (x / ulp64 y)) :: real) \<le> of_int (round_half_even (y / ulp64 y))"
      by (simp only: of_int_le_iff)
    then show ?thesis
      unfolding rounded_def u using ulp64_pos[of y] by (intro mult_right_mono) simp_all
  next
    case False
    then have lt: "?cx + 1 \<le> ?cy" using le by simp
    then have ey: "exponent y = ?cy" and n: "- 1022 \<le> exponent y" by (simp_all add: max_def split: if_splits)
    have "rounded x \<le> 2 powi (?cx + 1)" by (rule rounded_upper[OF x])
    also have "\<dots> \<le> 2 powi ?cy" using lt by (rule p2_mono)
    also have "\<dots> \<le> rounded y" using rounded_lower[OF y n] ey by simp
    finally show ?thesis .
  qed
qed

lemma exponent_1: "exponent 1 = 0"
  by (rule exponent_unique) simp_all

lemma rounded_1: "rounded 1 = 1"
proof -
  have "ulp64 1 = 2 powi (- 52)" by (simp add: ulp64_def exponent_1)
  moreover have "(1::real) / 2 powi (- 52) = of_int (2 ^ 52)" by (simp add: power_int_minus)
  ultimately show ?thesis
    unfolding rounded_def by (simp only: rhe_of_int) (simp add: power_int_minus)
qed

lemma exponent_100: "exponent 100 = 6"
  by (rule exponent_unique) simp_all

lemma rounded_100: "rounded 100 = 100"
proof -
  have u: "ulp64 100 = 2 powi (- 46)" by (simp add: ulp64_def exponent_100)
  have "(100::real) / 2 powi (- 46) = of_int (100 * 2 ^ 46)" by (simp add: power_int_minus)
  then show ?thesis
    unfolding rounded_def u by (simp only: rhe_of_int) (simp add: power_int_minus)
qed

lemma ulp64_le:
  assumes "x \<noteq> 0" and "\<bar>x\<bar> < 2 powi (k + 1)" and "- 1022 \<le> k"
  shows "ulp64 x \<le> 2 powi (k - 52)"
proof -
  have "2 powi exponent x \<le> \<bar>x\<bar>" using exponent_spec[OF assms(1)] by simp
  then have "(2::real) powi exponent x < 2 powi (k + 1)" using assms(2) by simp
  then have "exponent x < k + 1" by (rule p2_less_D)
  then have "max (exponent x) (- 1022) - 52 \<le> k - 52" using assms(3) by simp
  then show ?thesis unfolding ulp64_def by (rule p2_mono)
qed

lemma rounded_error_le:
  assumes "\<bar>x\<bar> < 2 powi (k + 1)" and "- 1022 \<le> k"
  shows "\<bar>rounded x - x\<bar> \<le> 2 powi (k - 53)"
proof (cases "x = 0")
  case True
  then show ?thesis using rounded_0 by simp
next
  case False
  have "2 powi (k - 52) = (2::real) powi (k - 53) * 2"
    using p2_add[of "k - 53" 1] by simp
  then have "ulp64 x / 2 \<le> 2 powi (k - 53)"
    using ulp64_le[OF False assms] by simp
  then show ?thesis using rounded_error[of x] by linarith
qed

lemma big_bound: "(100::real) < 2 ^ 1024"
proof -
  have "(100::real) < 2 ^ 7" by simp
  also have "\<dots> \<le> 2 ^ 1024" by (rule power_increasing) simp_all
  finally show ?thesis .
qed

lemma round64_small:
  assumes "0 \<le> x" and "x \<le> 100"
  shows "round64 x = Finite (rounded x) \<and> 0 \<le> rounded x \<and> rounded x \<le> 100"
proof -
  have a: "0 \<le> rounded x" using assms(1) by (rule rounded_nonneg)
  have b: "rounded x \<le> 100" using rounded_mono[OF assms] rounded_100 by simp
  have "\<not> 2 ^ 1024 \<le> rounded x" using b big_bound by linarith
  moreover have "\<not> rounded x \<le> - (2 ^ 1024)" using a big_bound by linarith
  ultimately show ?thesis using a b by (simp add: round64_def Let_def)
qed

lemma rounded_le_1: "0 \<le> x \<Longrightarrow> x \<le> 1 \<Longrightarrow> rounded x \<le> 1"
  using rounded_mono[of x 1] rounded_1 by simp

subsection \<open>The accuracy function\<close>

lemma sum_item_eq_matches:
  assumes "length y_true = length y_pred"
  shows "sum_item (map2 (\<lambda>x y. x = y) y_true y_pred) = matches y_true y_pred"
proof -
  have "sum_item (map2 (\<lambda>x y. x = y) y_true y_pred) =
        card {i. i < length (zip y_true y_pred) \<and> (case zip y_true y_pred ! i of (x, y) \<Rightarrow> x = y)}"
    by (simp add: sum_item_def filter_map comp_def length_filter_conv_card case_prod_unfold)
  also have "\<dots> = card {i. i < length y_pred \<and> y_true ! i = y_pred ! i}"
    using assms by (intro arg_cong[where f = card]) auto
  finally show ?thesis by (simp add: matches_def)
qed

lemma matches_le_length: "matches y_true y_pred \<le> length y_pred"
proof -
  have "{i. i < length y_pred \<and> y_true ! i = y_pred ! i} \<subseteq> {..<length y_pred}" by auto
  then have "card {i. i < length y_pred \<and> y_true ! i = y_pred ! i} \<le> card {..<length y_pred}"
    by (intro card_mono) auto
  then show ?thesis by (simp add: matches_def)
qed

text \<open>The value of \<open>(c / n) * 100\<close> in Python floats, for ints \<open>0 \<le> c \<le> n\<close> and \<open>n > 0\<close>.\<close>

lemma percent_float:
  assumes "c \<le> n" and "0 < n"
  shows "and_then (int_truediv (int c) (int n)) (\<lambda>q. float_mul_int q 100) =
           Inr (Finite (rounded (rounded (real c / real n) * 100)))
         \<and> 0 \<le> rounded (real c / real n) \<and> rounded (real c / real n) \<le> 1
         \<and> 0 \<le> rounded (rounded (real c / real n) * 100)
         \<and> rounded (rounded (real c / real n) * 100) \<le> 100"
proof -
  let ?x = "real c / real n"
  have q0: "0 \<le> ?x" "?x \<le> 1" using assms by simp_all
  then have q0': "?x \<le> 100" by simp
  have r1: "round64 ?x = Finite (rounded ?x)" "0 \<le> rounded ?x"
    using round64_small[OF q0(1) q0'] by simp_all
  have r1': "rounded ?x \<le> 1" using rounded_le_1[OF q0] .
  have div: "int_truediv (int c) (int n) = Inr (Finite (rounded ?x))"
    using assms(2) r1(1) by (simp add: int_truediv_def)
  have z: "0 \<le> rounded ?x * 100" "rounded ?x * 100 \<le> 100" using r1(2) r1' by simp_all
  note r2 = round64_small[OF z]
  have hundred: "int_to_float 100 = Inr 100"
    using round64_small[of 100] rounded_100 by (simp add: int_to_float_def)
  have "float_mul_int (Finite (rounded ?x)) 100 = Inr (Finite (rounded (rounded ?x * 100)))"
    using hundred r2 by (simp add: float_mul_int_def and_then_def fmul_finite_def)
  then show ?thesis using div r1 r1' r2 by (simp add: and_then_def)
qed

lemma accuracy_fn_value:
  assumes "length y_true = length y_pred" and "y_pred \<noteq> []"
  shows "accuracy_fn y_true y_pred =
           Inr (Finite (rounded (rounded (real (matches y_true y_pred) / real (length y_pred)) * 100)))"
proof -
  have n: "0 < length y_pred" using assms(2) by simp
  note p = percent_float[OF matches_le_length[of y_true y_pred] n]
  show ?thesis
    using assms(1) p
    by (simp add: accuracy_fn_def torch_eq_def and_then_def sum_item_eq_matches Let_def)
qed

lemma percent_error:
  assumes "c \<le> n" and "0 < n"
  shows "\<bar>rounded (rounded (real c / real n) * 100) - 100 * real c / real n\<bar> \<le> 1 / 2 ^ 46"
proof -
  let ?x = "real c / real n"
  let ?q = "rounded ?x"
  have q0: "0 \<le> ?x" "?x \<le> 1" using assms by simp_all
  have e1: "\<bar>?q - ?x\<bar> \<le> 1 / 2 ^ 54"
  proof (cases "?x = 1")
    case True
    then show ?thesis using rounded_1 by simp
  next
    case False
    then have "?x < 1" using q0(2) by linarith
    then have "\<bar>?x\<bar> < 2 powi (- 1 + 1)" using q0(1) by simp
    then have "\<bar>?q - ?x\<bar> \<le> 2 powi (- 1 - 53)" by (rule rounded_error_le) simp
    then show ?thesis by (simp add: power_int_minus_divide)
  qed
  have q: "0 \<le> ?q" "?q \<le> 1" using rounded_nonneg[OF q0(1)] rounded_le_1[OF q0] by simp_all
  then have "\<bar>?q * 100\<bar> < 2 powi (6 + 1)" by simp
  then have "\<bar>rounded (?q * 100) - ?q * 100\<bar> \<le> 2 powi (6 - 53)" by (rule rounded_error_le) simp
  then have e2: "\<bar>rounded (?q * 100) - ?q * 100\<bar> \<le> 1 / 2 ^ 47" by (simp add: power_int_minus_divide)
  have eq: "rounded (?q * 100) - 100 * ?x = (rounded (?q * 100) - ?q * 100) + 100 * (?q - ?x)"
    by (simp add: algebra_simps)
  have "\<bar>rounded (?q * 100) - 100 * ?x\<bar>
          \<le> \<bar>rounded (?q * 100) - ?q * 100\<bar> + \<bar>100 * (?q - ?x)\<bar>"
    unfolding eq by (rule abs_triangle_ineq)
  also have "\<bar>100 * (?q - ?x)\<bar> = 100 * \<bar>?q - ?x\<bar>"
    by (simp only: abs_mult abs_numeral)
  finally have "\<bar>rounded (?q * 100) - 100 * ?x\<bar>
          \<le> \<bar>rounded (?q * 100) - ?q * 100\<bar> + 100 * \<bar>?q - ?x\<bar>" .
  also have "\<dots> \<le> 1 / 2 ^ 47 + 100 * (1 / 2 ^ 54)"
    by (intro add_mono mult_left_mono e1 e2) simp
  also have "\<dots> \<le> 1 / 2 ^ 46" by simp
  finally show ?thesis by simp
qed

text \<open>Rounding a number whose binade is known.\<close>

lemma rounded_eval:
  assumes "2 powi e \<le> \<bar>x\<bar>" and "\<bar>x\<bar> < 2 powi (e + 1)" and "- 1022 \<le> e"
  shows "rounded x = of_int (round_half_even (x / 2 powi (e - 52))) * 2 powi (e - 52)"
proof -
  have "exponent x = e" using assms(1,2) by (rule exponent_unique)
  then have "ulp64 x = 2 powi (e - 52)" using assms(3) by (simp add: ulp64_def max_def)
  then show ?thesis by (simp add: rounded_def)
qed

lemma rounded_7_25: "rounded (7 / 25) = 5044031582654956 / 2 ^ 54"
  by (subst rounded_eval[of "- 2"])
     (simp_all add: round_half_even_def Let_def power_int_minus_divide)

lemma rounded_28: "rounded (5044031582654956 / 2 ^ 54 * 100) = 7881299347898369 / 2 ^ 48"
  by (subst rounded_eval[of 4])
     (simp_all add: round_half_even_def Let_def power_int_minus_divide)

lemma rounded_2_3: "rounded (2 / 3) = 6004799503160661 / 2 ^ 53"
  by (subst rounded_eval[of "- 1"])
     (simp_all add: round_half_even_def Let_def power_int_minus_divide)

lemma rounded_66: "rounded (6004799503160661 / 2 ^ 53 * 100) = 2345624805922133 / 2 ^ 45"
  by (subst rounded_eval[of 6])
     (simp_all add: round_half_even_def Let_def power_int_minus_divide)

lemma percent_7_25: "rounded (rounded (7 / 25) * 100) = 7881299347898369 / 2 ^ 48"
  unfolding rounded_7_25 by (rule rounded_28)

lemma percent_2_3: "rounded (rounded (2 / 3) * 100) = 2345624805922133 / 2 ^ 45"
  unfolding rounded_2_3 by (rule rounded_66)

lemma accuracy_fn_all_equal:
  assumes "y \<noteq> []"
  shows "accuracy_fn y y = Inr (Finite 100)"
proof -
  have "{i. i < length y \<and> y ! i = y ! i} = {..<length y}" by auto
  then have "matches y y = length y" by (simp add: matches_def)
  then show ?thesis
    using accuracy_fn_value[of y y] assms by (simp add: rounded_1 rounded_100)
qed

lemma accuracy_fn_all_differ:
  assumes "length y_true = length y_pred" and "y_pred \<noteq> []"
    and "\<forall>i < length y_pred. y_true ! i \<noteq> y_pred ! i"
  shows "accuracy_fn y_true y_pred = Inr (Finite 0)"
proof -
  have "{i. i < length y_pred \<and> y_true ! i = y_pred ! i} = {}" using assms(3) by auto
  then have "matches y_true y_pred = 0" by (simp add: matches_def)
  then show ?thesis
    using accuracy_fn_value[OF assms(1,2)] by (simp add: rounded_0)
qed

text \<open>
  C1, as the code has it. For equal-length non-empty label tensors, \<open>accuracy_fn\<close>
  returns \<open>(count / len(y_pred)) * 100\<close> in Python floats, where \<open>count\<close> is the
  number of indices at which the two agree: the quotient rounded to binary64, times
  100, rounded again. The result is within \<open>2\<^sup>-\<^sup>4\<^sup>6\<close> of \<open>100 * count / len(y_pred)\<close>
  and need not be equal to it. It is exactly 100 when the predictions equal the truth
  elementwise and exactly 0 when they differ from it at every index.
\<close>

theorem accuracy_fn_percentage:
  assumes "length y_true = length y_pred" and "y_pred \<noteq> []"
  shows "accuracy_fn y_true y_pred =
           Inr (Finite (rounded (rounded
             (real (card {i. i < length y_pred \<and> y_true ! i = y_pred ! i})
                / real (length y_pred)) * 100)))
         \<and> \<bar>rounded (rounded
               (real (card {i. i < length y_pred \<and> y_true ! i = y_pred ! i})
                  / real (length y_pred)) * 100)
             - 100 * real (card {i. i < length y_pred \<and> y_true ! i = y_pred ! i})
                 / real (length y_pred)\<bar> \<le> 1 / 2 ^ 46
         \<and> (y_pred = y_true \<longrightarrow> accuracy_fn y_true y_pred = Inr (Finite 100))
         \<and> ((\<forall>i < length y_pred. y_true ! i \<noteq> y_pred ! i)
              \<longrightarrow> accuracy_fn y_true y_pred = Inr (Finite 0))"
proof (intro conjI impI)
  show "accuracy_fn y_true y_pred =
           Inr (Finite (rounded (rounded
             (real (card {i. i < length y_pred \<and> y_true ! i = y_pred ! i})
                / real (length y_pred)) * 100)))"
    using accuracy_fn_value[OF assms] by (simp add: matches_def)
next
  have n: "0 < length y_pred" using assms(2) by simp
  show "\<bar>rounded (rounded
               (real (card {i. i < length y_pred \<and> y_true ! i = y_pred ! i})
                  / real (length y_pred)) * 100)
             - 100 * real (card {i. i < length y_pred \<and> y_true ! i = y_pred ! i})
                 / real (length y_pred)\<bar> \<le> 1 / 2 ^ 46"
    using percent_error[OF matches_le_length[of y_true y_pred] n] by (simp add: matches_def)
next
  assume eq: "y_pred = y_true"
  have "{i. i < length y_pred \<and> y_true ! i = y_pred ! i} = {..<length y_pred}"
    using eq by auto
  then have "matches y_true y_pred = length y_pred" by (simp add: matches_def)
  then show "accuracy_fn y_true y_pred = Inr (Finite 100)"
    using accuracy_fn_value[OF assms] assms(2) by (simp add: rounded_1 rounded_100)
next
  assume "\<forall>i < length y_pred. y_true ! i \<noteq> y_pred ! i"
  then have "{i. i < length y_pred \<and> y_true ! i = y_pred ! i} = {}" by auto
  then have "matches y_true y_pred = 0" by (simp add: matches_def)
  then show "accuracy_fn y_true y_pred = Inr (Finite 0)"
    using accuracy_fn_value[OF assms] by (simp add: rounded_0)
qed

lemma matches_example: "matches [1, 2, 3] [1, 0, 3] = 2"
proof -
  have "sum_item (map2 (\<lambda>x y. x = y) [1, 2, 3 :: int] [1, 0, 3]) = 2"
    by (simp add: sum_item_def)
  then show ?thesis using sum_item_eq_matches[of "[1, 2, 3]" "[1, 0, 3]"] by simp
qed

theorem accuracy_fn_percentage_witness:
  "length [1, 2, 3 :: int] = length [1, 0, 3 :: int] \<and> [1, 0, 3 :: int] \<noteq> []
   \<and> accuracy_fn [1, 2, 3] [1, 0, 3] = Inr (Finite (2345624805922133 / 2 ^ 45))
   \<and> \<bar>2345624805922133 / 2 ^ 45 - 100 * 2 / (3 :: real)\<bar> \<le> 1 / 2 ^ 46
   \<and> accuracy_fn [1, 0, 3] [1, 0, 3] = Inr (Finite 100)
   \<and> accuracy_fn [0, 1, 0] [1, 0, 3] = Inr (Finite 0)"
proof -
  have c: "card {i. i < length [1, 0, 3 :: int] \<and> [1, 2, 3] ! i = [1, 0, 3 :: int] ! i} = 2"
    using matches_example by (simp add: matches_def)
  have "real 2 / real (length [1, 0, 3 :: int]) = 2 / 3" by simp
  then have v: "rounded (rounded (real 2 / real (length [1, 0, 3 :: int])) * 100)
             = 2345624805922133 / 2 ^ 45"
    by (simp only: percent_2_3)
  have a: "accuracy_fn [1, 2, 3] [1, 0, 3] = Inr (Finite (2345624805922133 / 2 ^ 45))
           \<and> \<bar>2345624805922133 / 2 ^ 45 - 100 * 2 / (3 :: real)\<bar> \<le> 1 / 2 ^ 46"
    using accuracy_fn_percentage[of "[1, 2, 3]" "[1, 0, 3]"] unfolding c v by simp
  have ne: "[1, 0, 3 :: int] \<noteq> []" by simp
  have l1: "length [1, 0, 3 :: int] = length [1, 0, 3 :: int]" by simp
  have l2: "length [0, 1, 0 :: int] = length [1, 0, 3 :: int]" by simp
  have b: "accuracy_fn [1, 0, 3] [1, 0, 3] = Inr (Finite 100)"
    using accuracy_fn_percentage[OF l1 ne, THEN conjunct2, THEN conjunct2, THEN conjunct1]
    by simp
  have "\<forall>i < length [1, 0, 3 :: int]. [0, 1, 0 :: int] ! i \<noteq> [1, 0, 3] ! i"
    by (simp add: All_less_Suc)
  then have d: "accuracy_fn [0, 1, 0] [1, 0, 3] = Inr (Finite 0)"
    using accuracy_fn_percentage[OF l2 ne, THEN conjunct2, THEN conjunct2, THEN conjunct2]
    by blast
  show ?thesis using a b d by simp
qed

text \<open>
  With 7 of 25 predictions right, \<open>100 * 7 / 25\<close> is 28, in exact arithmetic and in
  floats. \<open>accuracy_fn\<close> returns 28.000000000000004: the quotient 7 / 25 is rounded up,
  and 100 times it lies nearer to the float above 28 than to 28.
\<close>

theorem accuracy_fn_not_exact:
  "accuracy_fn (replicate 7 0 @ replicate 18 1) (replicate 25 0)
     = Inr (Finite (7881299347898369 / 2 ^ 48))
   \<and> matches (replicate 7 0 @ replicate 18 1) (replicate 25 0) = 7
   \<and> length (replicate 25 (0 :: int)) = 25
   \<and> 100 * real 7 / real 25 = 28
   \<and> round64 (100 * real 7 / real 25) = Finite 28
   \<and> (7881299347898369 / 2 ^ 48 :: real) \<noteq> 28"
proof -
  have "sum_item (map2 (\<lambda>x y. x = y) (replicate 7 0 @ replicate 18 1) (replicate 25 (0 :: int))) = 7"
    by code_simp
  then have m: "matches (replicate 7 0 @ replicate 18 1) (replicate 25 0) = 7"
    using sum_item_eq_matches[of "replicate 7 0 @ replicate 18 1" "replicate 25 0"] by simp
  have "accuracy_fn (replicate 7 0 @ replicate 18 1) (replicate 25 0)
          = Inr (Finite (rounded (rounded (real 7 / real 25) * 100)))"
    using accuracy_fn_value[of "replicate 7 0 @ replicate 18 1" "replicate 25 0"] m by simp
  moreover have "real 7 / real 25 = 7 / 25" by simp
  ultimately have a: "accuracy_fn (replicate 7 0 @ replicate 18 1) (replicate 25 0)
          = Inr (Finite (7881299347898369 / 2 ^ 48))"
    by (simp only: percent_7_25)
  have "rounded 28 = 28"
    by (subst rounded_eval[of 4])
       (simp_all add: round_half_even_def Let_def power_int_minus_divide)
  then have r: "round64 28 = Finite 28" using round64_small[of 28] by simp
  show ?thesis using a m r by simp
qed

text \<open>
  C9. For equal-length non-empty label tensors the division inside \<open>accuracy_fn\<close> is
  defined, so the call returns a value, and the value lies between 0 and 100.
\<close>

theorem accuracy_fn_in_range:
  assumes "length y_true = length y_pred" and "y_pred \<noteq> []"
  shows "length y_pred \<noteq> 0
         \<and> (\<exists>acc. accuracy_fn y_true y_pred = Inr (Finite acc) \<and> 0 \<le> acc \<and> acc \<le> 100)"
proof -
  have n: "0 < length y_pred" using assms(2) by simp
  note p = percent_float[OF matches_le_length[of y_true y_pred] n]
  show ?thesis using accuracy_fn_value[OF assms] p assms(2) by simp
qed

theorem accuracy_fn_in_range_witness:
  "length [1, 2, 3 :: int] = length [1, 0, 3 :: int] \<and> [1, 0, 3 :: int] \<noteq> []
   \<and> length [1, 0, 3 :: int] \<noteq> 0
   \<and> (\<exists>acc. accuracy_fn [1, 2, 3] [1, 0, 3] = Inr (Finite acc) \<and> 0 \<le> acc \<and> acc \<le> 100)"
  using accuracy_fn_in_range[of "[1, 2, 3]" "[1, 0, 3]"] by simp

subsection \<open>The model\<close>

lemma length_class_names: "length class_names = 10"
  by (simp add: class_names_def)

lemma forward_model_0_eq:
  "forward ker (model_0 W1 b1 W2 b2) x =
     and_then (and_then (Flatten_forward x)
        (Linear_forward ker \<lparr>in_features = 784, out_features = 10, weight = W1, bias = b1\<rparr>))
        (Linear_forward ker \<lparr>in_features = 10, out_features = 10, weight = W2, bias = b2\<rparr>)"
  by (simp add: forward_def model_0_def init_model_def length_class_names and_then_def
      split: sum.splits)

lemma length_rows: "length (rows k n xs) = n"
  by (simp add: rows_def)

lemma length_layer_row:
  "wf_linear L \<Longrightarrow> length (map2 (\<lambda>w b. ker w b v) (weight L) (bias L)) = out_features L"
  by (simp add: wf_linear_def)

lemma length_concat_layer:
  assumes "wf_linear L"
  shows "length (concat (map (\<lambda>v. map2 (\<lambda>w b. ker w b v) (weight L) (bias L)) rs))
           = length rs * out_features L"
  using assms by (induction rs) (simp_all add: wf_linear_def)

lemma Flatten_forward_image_batch:
  assumes "shape x = [n, 1, 28, 28]"
  shows "\<exists>y. Flatten_forward x = Inr y \<and> shape y = [n, 784] \<and> data y = data x"
  using assms by (simp add: Flatten_forward_def)

lemma take_drop_concat_map:
  assumes "\<forall>r \<in> set rs. length (f r) = k" and "i < length rs"
  shows "take k (drop (i * k) (concat (map f rs))) = f (rs ! i)"
  using assms
proof (induction rs arbitrary: i)
  case Nil
  then show ?case by simp
next
  case (Cons r rs)
  have len: "length (f r) = k" using Cons.prems(1) by simp
  show ?case
  proof (cases i)
    case 0
    then show ?thesis using len by simp
  next
    case (Suc j)
    then have "drop (i * k) (f r @ concat (map f rs)) = drop (j * k) (concat (map f rs))"
      using len by simp
    then show ?thesis
      using Cons.IH[of j] Cons.prems Suc by simp
  qed
qed

lemma rows_concat_map:
  assumes "\<forall>r \<in> set rs. length (f r) = k"
  shows "rows k (length rs) (concat (map f rs)) = map f rs"
  by (rule nth_equalityI) (simp_all add: rows_def take_drop_concat_map[OF assms])

lemma Linear_forward_rows:
  assumes "wf_linear L" and "shape x = [n, in_features L]"
  shows "\<exists>y. Linear_forward ker L x = Inr y \<and> shape y = [n, out_features L] \<and> wf_tensor y
           \<and> rows (out_features L) n (data y) =
               map (\<lambda>v. map2 (\<lambda>w b. ker w b v) (weight L) (bias L))
                   (rows (in_features L) n (data x))"
proof -
  let ?rs = "rows (in_features L) n (data x)"
  let ?g = "\<lambda>v. map2 (\<lambda>w b. ker w b v) (weight L) (bias L)"
  have "\<forall>r \<in> set ?rs. length (?g r) = out_features L"
    using assms(1) by (simp add: wf_linear_def)
  then have "rows (out_features L) (length ?rs) (concat (map ?g ?rs)) = map ?g ?rs"
    by (rule rows_concat_map)
  then show ?thesis
    using assms length_concat_layer[OF assms(1), of ker ?rs]
    by (simp add: Linear_forward_def wf_tensor_def length_rows)
qed

lemma forward_model_0_rows:
  assumes w1: "wf_linear \<lparr>in_features = 784, out_features = 10, weight = W1, bias = b1\<rparr>"
    and w2: "wf_linear \<lparr>in_features = 10, out_features = 10, weight = W2, bias = b2\<rparr>"
    and x: "shape x = [n, 1, 28, 28]"
  shows "\<exists>y. forward ker (model_0 W1 b1 W2 b2) x = Inr y \<and> shape y = [n, 10] \<and> wf_tensor y
           \<and> rows 10 n (data y) =
               map (\<lambda>v. map2 (\<lambda>w b. ker w b (map2 (\<lambda>w b. ker w b v) W1 b1)) W2 b2)
                   (rows 784 n (data x))"
proof -
  let ?L1 = "\<lparr>in_features = 784, out_features = 10, weight = W1, bias = b1\<rparr>"
  let ?L2 = "\<lparr>in_features = 10, out_features = 10, weight = W2, bias = b2\<rparr>"
  obtain x1 where x1: "Flatten_forward x = Inr x1" "shape x1 = [n, 784]" "data x1 = data x"
    using Flatten_forward_image_batch[OF x] by blast
  obtain x2 where x2: "Linear_forward ker ?L1 x1 = Inr x2" "shape x2 = [n, 10]"
    "rows 10 n (data x2) = map (\<lambda>v. map2 (\<lambda>w b. ker w b v) W1 b1) (rows 784 n (data x1))"
    using Linear_forward_rows[OF w1, of x1 n ker] x1(2) by auto
  obtain x3 where x3: "Linear_forward ker ?L2 x2 = Inr x3" "shape x3 = [n, 10]" "wf_tensor x3"
    "rows 10 n (data x3) = map (\<lambda>v. map2 (\<lambda>w b. ker w b v) W2 b2) (rows 10 n (data x2))"
    using Linear_forward_rows[OF w2, of x2 n ker] x2(2) by auto
  have "forward ker (model_0 W1 b1 W2 b2) x = Inr x3"
    using x1(1) x2(1) x3(1) by (simp add: forward_model_0_eq and_then_def)
  moreover have "rows 10 n (data x3) =
      map (\<lambda>v. map2 (\<lambda>w b. ker w b (map2 (\<lambda>w b. ker w b v) W1 b1)) W2 b2) (rows 784 n (data x))"
    using x3(4) x2(3) x1(3) by (simp add: comp_def)
  ultimately show ?thesis using x3(2,3) by blast
qed







text \<open>
  The data model the notebook states: a sample is a single-channel image of 28 by 28
  pixels with a label from 0 to 9. The model is instantiated to fit it: the image has
  as many entries as the first layer has input features, the forward pass on the
  sample accepts it and returns one score per class name, and the label is the index
  of a class name.
\<close>

lemma model_0_fits_data_model:
  assumes w1: "wf_linear \<lparr>in_features = 784, out_features = 10, weight = W1, bias = b1\<rparr>"
    and w2: "wf_linear \<lparr>in_features = 10, out_features = 10, weight = W2, bias = b2\<rparr>"
    and sh: "shape img = [1, 28, 28]"
    and label: "0 \<le> label" "label \<le> 9"
  shows "prod_list (shape img) = 784
         \<and> (\<exists>y. forward ker (model_0 W1 b1 W2 b2) (unsqueeze0 img) = Inr y
                  \<and> shape y = [1, length class_names])
         \<and> nat label < length class_names"
proof -
  have "shape (unsqueeze0 img) = [1, 1, 28, 28]"
    using sh by (simp add: unsqueeze0_def)
  then obtain y where "forward ker (model_0 W1 b1 W2 b2) (unsqueeze0 img) = Inr y"
      "shape y = [1, 10]"
    using forward_model_0_rows[OF w1 w2, of "unsqueeze0 img" 1 ker] by auto
  then show ?thesis
    using sh label by (auto simp: length_class_names)
qed

subsection \<open>Batches\<close>

lemma map_length_batch_sampler:
  assumes "0 < bs" and "length batch < bs"
  shows "map length (batch_sampler bs batch xs) =
         replicate ((length batch + length xs) div bs) bs
         @ (if (length batch + length xs) mod bs = 0 then []
            else [(length batch + length xs) mod bs])"
  using assms
proof (induction xs arbitrary: batch)
  case Nil
  then show ?case by simp
next
  case (Cons idx xs)
  show ?case
  proof (cases "Suc (length batch) = bs")
    case True
    have total: "length batch + length (idx # xs) = bs + length xs"
      using True by simp
    have "map length (batch_sampler bs batch (idx # xs)) =
          bs # map length (batch_sampler bs [] xs)"
      using True by simp
    also have "\<dots> = bs # (replicate (length xs div bs) bs
                 @ (if length xs mod bs = 0 then [] else [length xs mod bs]))"
      using Cons.IH[of "[]"] Cons.prems(1) by simp
    finally show ?thesis
      unfolding total using Cons.prems(1) by simp
  next
    case False
    then have lt: "length (batch @ [idx]) < bs" using Cons.prems(2) by simp
    have "map length (batch_sampler bs batch (idx # xs)) =
          map length (batch_sampler bs (batch @ [idx]) xs)"
      using False by simp
    then show ?thesis
      using Cons.IH[OF Cons.prems(1) lt] by simp
  qed
qed

lemma map_length_iter_batches:
  assumes "0 < batch_size dl" and "shuffle dl \<longrightarrow> length perm = length (dataset dl)"
  shows "map length (iter_batches dl perm) =
         replicate (length (dataset dl) div batch_size dl) (batch_size dl)
         @ (if length (dataset dl) mod batch_size dl = 0 then []
            else [length (dataset dl) mod batch_size dl])"
proof -
  let ?sampler = "if shuffle dl then perm else [0..<length (dataset dl)]"
  have len: "length ?sampler = length (dataset dl)" using assms(2) by simp
  have "map length (iter_batches dl perm) =
        map length (batch_sampler (batch_size dl) [] ?sampler)"
    by (simp add: iter_batches_def comp_def)
  then show ?thesis
    using map_length_batch_sampler[OF assms(1), of "[]" ?sampler] assms(1) len
    by (simp del: replicate.simps)
qed

lemma ceil_div:
  fixes n b :: nat
  assumes "0 < b"
  shows "(n + b - 1) div b = n div b + (if n mod b = 0 then 0 else 1)"
proof -
  obtain q r where n: "n = q * b + r" and r: "r < b" and q: "q = n div b" and rm: "r = n mod b"
    using assms by (metis div_mult_mod_eq mod_less_divisor)
  show ?thesis
  proof (cases "r = 0")
    case True
    have e: "n + b - 1 = q * b + (b - 1)" using n True assms by simp
    have "(q * b + (b - 1)) div b = q + (b - 1) div b"
      using assms by (subst div_mult_self3) auto
    moreover have "(b - 1) div b = 0" using assms by (intro div_less) simp
    ultimately have "(n + b - 1) div b = q" unfolding e by simp
    then show ?thesis using True q rm by simp
  next
    case False
    have e: "n + b - 1 = (q + 1) * b + (r - 1)" using n False assms by simp
    have "((q + 1) * b + (r - 1)) div b = (q + 1) + (r - 1) div b"
      using assms by (subst div_mult_self3) auto
    moreover have "(r - 1) div b = 0" using r by (intro div_less) simp
    ultimately have "(n + b - 1) div b = q + 1" unfolding e by simp
    then show ?thesis using False q rm by simp
  qed
qed

text \<open>
  The loader yields \<open>len(dataloader)\<close> batches, the number the testing loop divides by.
\<close>

lemma length_iter_batches:
  assumes "0 < batch_size dl" and "shuffle dl \<longrightarrow> length perm = length (dataset dl)"
  shows "length (iter_batches dl perm) = len_dataloader dl"
proof -
  have "length (iter_batches dl perm) = length (map length (iter_batches dl perm))" by simp
  also have "\<dots> = length (dataset dl) div batch_size dl
                 + (if length (dataset dl) mod batch_size dl = 0 then 0 else 1)"
    unfolding map_length_iter_batches[OF assms] by simp
  finally show ?thesis
    using ceil_div[OF assms(1), of "length (dataset dl)"] by (simp add: len_dataloader_def)
qed

text \<open>
  C5, as the code has it. With the 60000 training samples and the 10000 test samples
  of FashionMNIST, every batch of the train dataloader holds exactly 32 samples, in
  every epoch and for every shuffling; the test dataloader yields 312 batches of 32
  samples and then a last batch of 16.
\<close>

theorem batch_sizes:
  assumes "length train_data = 60000" and "length test_data = 10000"
    and "is_permutation perm 60000"
  shows "map length (iter_batches (train_dataloader train_data) perm) = replicate 1875 32
       \<and> map length (iter_batches (test_dataloader test_data) perm') = replicate 312 32 @ [16]"
proof -
  have a: "map length (iter_batches (train_dataloader train_data) perm) = replicate 1875 32"
    using map_length_iter_batches[of "train_dataloader train_data" perm] assms(1,3)
    by (simp add: train_dataloader_def BATCH_SIZE_def is_permutation_def)
  have b: "map length (iter_batches (test_dataloader test_data) perm') = replicate 312 32 @ [16]"
    using map_length_iter_batches[of "test_dataloader test_data" perm'] assms(2)
    by (simp add: test_dataloader_def BATCH_SIZE_def)
  show ?thesis using a b by simp
qed

theorem batch_sizes_witness:
  "length (replicate 60000 (0::nat)) = 60000 \<and> length (replicate 10000 (0::nat)) = 10000
   \<and> is_permutation (rev [0..<60000]) 60000
   \<and> map length (iter_batches (train_dataloader (replicate 60000 (0::nat))) (rev [0..<60000]))
       = replicate 1875 32
   \<and> map length (iter_batches (test_dataloader (replicate 10000 (0::nat))) [])
       = replicate 312 32 @ [16]"
proof -
  have p: "is_permutation (rev [0..<60000]) 60000"
    by (simp add: is_permutation_def atLeast0LessThan del: upt_rec_numeral)
  show ?thesis
    using p batch_sizes[of "replicate 60000 (0::nat)" "replicate 10000 (0::nat)" "rev [0..<60000]" "[]"]
    by (simp del: upt_rec_numeral)
qed

text \<open>
  The last batch of the test dataloader is not a batch of \<open>BATCH_SIZE\<close> samples.
\<close>

theorem test_dataloader_last_batch:
  "BATCH_SIZE = 32
   \<and> iter_batches (test_dataloader (replicate 10000 (0::nat))) [] \<noteq> []
   \<and> length (last (iter_batches (test_dataloader (replicate 10000 (0::nat))) [])) = 16"
proof -
  let ?bs = "iter_batches (test_dataloader (replicate 10000 (0::nat))) []"
  have m: "map length ?bs = replicate 312 32 @ [16]"
    using map_length_iter_batches[of "test_dataloader (replicate 10000 (0::nat))" "[]"]
    by (simp add: test_dataloader_def BATCH_SIZE_def)
  then have ne: "?bs \<noteq> []" by auto
  have "last (map length ?bs) = 16" using m by simp
  then have "length (last ?bs) = 16" using ne by (simp add: last_map)
  then show ?thesis using ne by (simp add: BATCH_SIZE_def)
qed

subsection \<open>The random test sample\<close>

text \<open>
  C10 fails on the code. The length of the dataset is one of the values
  \<open>random.randint(0, len(test_data))\<close> can return, and indexing the dataset with it
  raises \<open>IndexError\<close>.
\<close>

theorem random_index_out_of_range:
  "int (length test_data) \<in> random_garment_idx test_data
   \<and> sample_at test_data (int (length test_data)) = Inl IndexError"
  by (simp add: random_garment_idx_def randint_def sample_at_def getitem_def)

subsection \<open>The reported test accuracy\<close>

lemma test_batches_accs:
  assumes "test_batches model ops bs (l0, a0) = Inr (l, a)"
  shows "\<exists>accs. list_all2 (\<lambda>b acc. batch_accuracy model ops b = Inr acc) bs accs
           \<and> a = foldl fadd a0 accs"
  using assms
proof (induction bs arbitrary: l0 a0)
  case Nil
  then show ?case by simp
next
  case (Cons b rest)
  obtain X y where b: "b = (X, y)" by (cases b)
  from Cons.prems obtain test_pred lv y_pred acc where
    steps: "model X = Inr test_pred" "loss_fn ops test_pred y = Inr lv"
      "argmax_dim1 ops test_pred = Inr y_pred" "accuracy_fn y y_pred = Inr acc"
      "test_batches model ops rest (loss_add ops l0 lv, fadd a0 acc) = Inr (l, a)"
    unfolding b by (auto simp: and_then_def split: sum.splits)
  obtain accs where accs:
    "list_all2 (\<lambda>b acc. batch_accuracy model ops b = Inr acc) rest accs"
    "a = foldl fadd (fadd a0 acc) accs"
    using Cons.IH[OF steps(5)] by blast
  have "batch_accuracy model ops b = Inr acc"
    using steps(1,3,4) unfolding b by (simp add: batch_accuracy_def and_then_def)
  then have "list_all2 (\<lambda>b acc. batch_accuracy model ops b = Inr acc) (b # rest) (acc # accs)"
    using accs(1) by simp
  moreover have "a = foldl fadd a0 (acc # accs)" using accs(2) by simp
  ultimately show ?case by blast
qed

text \<open>
  C4, as the code has it. The test accuracy reported for an epoch is the mean of the
  accuracies of the batches, in Python floats: the sum, from the left, of what
  \<open>accuracy_fn\<close> returns for each batch, divided by the number of batches. Every batch
  counts the same, whatever its size.
\<close>

theorem test_acc_is_batch_mean:
  assumes "test_loop model ops batches = Inr (test_loss, test_acc)"
  shows "\<exists>accs. list_all2 (\<lambda>b acc. batch_accuracy model ops b = Inr acc) batches accs
           \<and> mean64 accs = Inr test_acc"
proof -
  from assms obtain l a where
    run: "test_batches model ops batches (loss_zero ops, Finite 0) = Inr (l, a)"
    and ne: "batches \<noteq> []"
    and res: "float_truediv_int a (int (length batches)) = Inr test_acc"
    by (auto simp: test_loop_def and_then_def split: sum.splits if_splits)
  obtain accs where accs:
    "list_all2 (\<lambda>b acc. batch_accuracy model ops b = Inr acc) batches accs"
    "a = foldl fadd (Finite 0) accs"
    using test_batches_accs[OF run] by blast
  have "length accs = length batches" using accs(1) by (simp add: list_all2_lengthD)
  then have "mean64 accs = Inr test_acc" using res accs(2) by (simp add: mean64_def)
  then show ?thesis using accs(1) by blast
qed

text \<open>Small numbers that are floats.\<close>

lemma rounded_2: "rounded 2 = 2"
  by (subst rounded_eval[of 1])
     (simp_all add: round_half_even_def Let_def power_int_minus_divide)

lemma rounded_50: "rounded 50 = 50"
  by (subst rounded_eval[of 5])
     (simp_all add: round_half_even_def Let_def power_int_minus_divide)

lemma round64_values:
  "round64 0 = Finite 0" "round64 2 = Finite 2" "round64 50 = Finite 50"
  "round64 100 = Finite 100"
  using round64_small[of 0] round64_small[of 2] round64_small[of 50] round64_small[of 100]
  by (simp_all add: rounded_0 rounded_2 rounded_50 rounded_100)

lemma mean_0_100: "mean64 [Finite 0, Finite 100] = Inr (Finite 50)"
  by (simp add: mean64_def float_truediv_int_def int_to_float_def and_then_def
      fdiv_finite_def round64_values)

lemma mean_100_0: "mean64 [Finite 100, Finite 0] = Inr (Finite 50)"
  by (simp add: mean64_def float_truediv_int_def int_to_float_def and_then_def
      fdiv_finite_def round64_values)

theorem test_acc_is_batch_mean_witness:
  "let model = (\<lambda>X. Inr (map (\<lambda>x. [1, 0]) X)) :: nat list \<Rightarrow> exn + real list list;
       batches = [([0, 0], [0, 0]), ([0, 0], [1, 1])] :: (nat list \<times> labels) list
   in test_loop model finite_scores batches = Inr ((), Finite 50)
      \<and> (\<exists>accs. list_all2 (\<lambda>b acc. batch_accuracy model finite_scores b = Inr acc) batches accs
            \<and> mean64 accs = Inr (Finite 50))"
proof -
  let ?model = "(\<lambda>X. Inr (map (\<lambda>x. [1, 0]) X)) :: nat list \<Rightarrow> exn + real list list"
  let ?batches = "[([0, 0], [0, 0]), ([0, 0], [1, 1])] :: (nat list \<times> labels) list"
  have a1: "accuracy_fn [0, 0] [0, 0] = Inr (Finite 100)"
    by (rule accuracy_fn_all_equal) simp
  have a2: "accuracy_fn [1, 1] [0, 0] = Inr (Finite 0)"
    by (rule accuracy_fn_all_differ) (simp_all add: All_less_Suc)
  have run: "test_loop ?model finite_scores ?batches = Inr ((), Finite 50)"
    by (simp add: test_loop_def and_then_def finite_scores_def argmax_row_def a1 a2
        round64_values float_truediv_int_def int_to_float_def fdiv_finite_def)
  from run test_acc_is_batch_mean[OF run] show ?thesis
    unfolding Let_def by (rule conjI)
qed

lemma rounded_1_33: "rounded (1 / 33) = 1091781727847393 / 2 ^ 55"
  by (subst rounded_eval[of "- 6"])
     (simp_all add: round_half_even_def Let_def power_int_minus_divide)

lemma rounded_3_03: "rounded (1091781727847393 / 2 ^ 55 * 100) = 3411817899523103 / 2 ^ 50"
  by (subst rounded_eval[of 1])
     (simp_all add: round_half_even_def Let_def power_int_minus_divide)

lemma percent_1_33: "rounded (rounded (1 / 33) * 100) = 3411817899523103 / 2 ^ 50"
  unfolding rounded_1_33 by (rule rounded_3_03)

text \<open>
  The reported accuracy is not the percentage over the test set when the batches have
  different sizes, as those of the notebook's test loader have. Here the test set has
  33 samples and the model predicts class 0 for each: the 32 samples of the first batch
  have label 1, the one sample of the last batch has label 0. The loop reports 50,
  the mean of 0 and 100. One sample of 33 is classified correctly, which is 3.03 per
  cent, also as \<open>accuracy_fn\<close> computes it on the whole test set.
\<close>

theorem test_acc_unequal_batches:
  "map (length \<circ> fst)
     (map collate (iter_batches (test_dataloader (replicate 32 (0 :: nat, 1 :: int) @ [(0, 0)])) []))
     = [32, 1]
   \<and> test_loop (\<lambda>X. Inr (map (\<lambda>x. [1, 0]) X)) finite_scores
       (map collate (iter_batches (test_dataloader (replicate 32 (0 :: nat, 1 :: int) @ [(0, 0)])) []))
       = Inr ((), Finite 50)
   \<and> length (replicate 32 (0 :: nat, 1 :: int) @ [(0, 0)]) = 33
   \<and> matches (map snd (replicate 32 (0 :: nat, 1 :: int) @ [(0, 0)])) (replicate 33 0) = 1
   \<and> batch_accuracy (\<lambda>X. Inr (map (\<lambda>x. [1, 0]) X)) finite_scores
       (collate (replicate 32 (0 :: nat, 1 :: int) @ [(0, 0)]))
       = Inr (Finite (3411817899523103 / 2 ^ 50))
   \<and> (3411817899523103 / 2 ^ 50 :: real) < 50
   \<and> (100 * 1 / 33 :: real) < 50"
proof -
  let ?ds = "replicate 32 (0, 1) @ [(0, 0)] :: (nat \<times> int) list"
  let ?model = "(\<lambda>X. Inr (map (\<lambda>x. [1, 0]) X)) :: nat list \<Rightarrow> exn + real list list"
  have b: "map collate (iter_batches (test_dataloader ?ds) [])
             = [(replicate 32 0, replicate 32 1), ([0], [0])]"
    by code_simp
  have l: "length ?ds = 33" by simp
  have a1: "accuracy_fn (replicate 32 1) (replicate 32 0) = Inr (Finite 0)"
    by (rule accuracy_fn_all_differ) simp_all
  have a2: "accuracy_fn [0] [0] = Inr (Finite 100)"
    by (rule accuracy_fn_all_equal) simp
  have run: "test_loop ?model finite_scores [(replicate 32 0, replicate 32 1), ([0], [0])]
               = Inr ((), Finite 50)"
    by (simp add: test_loop_def and_then_def finite_scores_def argmax_row_def a1 a2
        round64_values float_truediv_int_def int_to_float_def fdiv_finite_def list_ex_iff)
  have "sum_item (map2 (\<lambda>x y. x = y) (map snd ?ds) (replicate 33 (0 :: int))) = 1"
    by code_simp
  then have m: "matches (map snd ?ds) (replicate 33 0) = 1"
    using sum_item_eq_matches[of "map snd ?ds" "replicate 33 0"] by simp
  have "accuracy_fn (map snd ?ds) (replicate 33 0)
          = Inr (Finite (rounded (rounded (real 1 / real 33) * 100)))"
    using accuracy_fn_value[of "map snd ?ds" "replicate 33 0"] m by simp
  moreover have "real 1 / real 33 = 1 / 33" by simp
  ultimately have acc: "accuracy_fn (map snd ?ds) (replicate 33 0)
          = Inr (Finite (3411817899523103 / 2 ^ 50))"
    by (simp only: percent_1_33)
  have r: "replicate 32 0 @ [0] = replicate 33 (0 :: int)"
    by code_simp
  have p: "argmax_dim1 finite_scores (map (\<lambda>x. [1, 0]) (map fst ?ds)) = Inr (replicate 33 0)"
    by (simp add: finite_scores_def argmax_row_def list_ex_iff r)
  have whole: "batch_accuracy ?model finite_scores (collate ?ds)
          = Inr (Finite (3411817899523103 / 2 ^ 50))"
    using p acc by (simp add: batch_accuracy_def collate_def and_then_def)
  have s: "map (length \<circ> fst) [(replicate 32 (0::nat), replicate 32 (1::int)), ([0], [0])]
             = [32, 1]"
    by simp
  show ?thesis
    unfolding b using s run l m whole by (intro conjI) simp_all
qed

subsection \<open>Running a sequence of calls\<close>

lemma run_calls_returns:
  "run_calls lib cs s = (Inr s', made) \<Longrightarrow> made = cs"
proof (induction cs arbitrary: s made)
  case Nil
  then show ?case by simp
next
  case (Cons c cs)
  then show ?case
    by (auto split: sum.splits prod.splits)
qed

lemma run_calls_raises_iff:
  "run_calls lib cs s = (Inl e, made) \<longleftrightarrow>
     (\<exists>pre c post s'. cs = pre @ c # post \<and> made = pre @ [c]
        \<and> run_calls lib pre s = (Inr s', pre) \<and> lib c s' = Inl e)"
proof (induction cs arbitrary: s made)
  case Nil
  then show ?case by simp
next
  case (Cons d ds)
  show ?case
  proof (cases "lib d s")
    case (Inl e')
    show ?thesis
    proof
      assume "run_calls lib (d # ds) s = (Inl e, made)"
      then have "e' = e" "made = [d]" using Inl by auto
      then have "d # ds = [] @ d # ds \<and> made = [] @ [d]
                 \<and> run_calls lib [] s = (Inr s, []) \<and> lib d s = Inl e"
        using Inl by simp
      then show "\<exists>pre c post s'. d # ds = pre @ c # post \<and> made = pre @ [c]
                   \<and> run_calls lib pre s = (Inr s', pre) \<and> lib c s' = Inl e"
        by blast
    next
      assume "\<exists>pre c post s'. d # ds = pre @ c # post \<and> made = pre @ [c]
                \<and> run_calls lib pre s = (Inr s', pre) \<and> lib c s' = Inl e"
      then obtain pre c post s' where h: "d # ds = pre @ c # post" "made = pre @ [c]"
        "run_calls lib pre s = (Inr s', pre)" "lib c s' = Inl e" by blast
      show "run_calls lib (d # ds) s = (Inl e, made)"
      proof (cases pre)
        case Nil
        then show ?thesis using h Inl by auto
      next
        case (Cons p ps)
        then have "p = d" using h(1) by simp
        then show ?thesis using h(3) Cons Inl by simp
      qed
    qed
  next
    case (Inr s1)
    have step: "run_calls lib (d # ds) s = (Inl e, made) \<longleftrightarrow>
                (\<exists>made'. made = d # made' \<and> run_calls lib ds s1 = (Inl e, made'))"
      using Inr by (auto split: prod.splits)
    show ?thesis
    proof
      assume "run_calls lib (d # ds) s = (Inl e, made)"
      then obtain made' where m: "made = d # made'" "run_calls lib ds s1 = (Inl e, made')"
        using step by blast
      then obtain pre c post s' where h: "ds = pre @ c # post" "made' = pre @ [c]"
        "run_calls lib pre s1 = (Inr s', pre)" "lib c s' = Inl e"
        using Cons.IH[of s1 made'] by blast
      have "d # ds = (d # pre) @ c # post \<and> made = (d # pre) @ [c]
            \<and> run_calls lib (d # pre) s = (Inr s', d # pre) \<and> lib c s' = Inl e"
        using h m Inr by simp
      then show "\<exists>pre c post s'. d # ds = pre @ c # post \<and> made = pre @ [c]
                   \<and> run_calls lib pre s = (Inr s', pre) \<and> lib c s' = Inl e"
        by blast
    next
      assume "\<exists>pre c post s'. d # ds = pre @ c # post \<and> made = pre @ [c]
                \<and> run_calls lib pre s = (Inr s', pre) \<and> lib c s' = Inl e"
      then obtain pre c post s' where h: "d # ds = pre @ c # post" "made = pre @ [c]"
        "run_calls lib pre s = (Inr s', pre)" "lib c s' = Inl e" by blast
      show "run_calls lib (d # ds) s = (Inl e, made)"
      proof (cases pre)
        case Nil
        then show ?thesis using h Inr by auto
      next
        case (Cons p ps)
        then have pd: "p = d" and ds: "ds = ps @ c # post" using h(1) by simp_all
        have "run_calls lib ps s1 = (Inr s', ps)"
          using h(3) Cons pd Inr by (auto split: prod.splits)
        then have "run_calls lib ds s1 = (Inl e, ps @ [c])"
          using Cons.IH[of s1 "ps @ [c]"] ds h(4) by blast
        then show ?thesis using step h(2) Cons pd by simp
      qed
    qed
  qed
qed

subsection \<open>The order of a training step\<close>

lemma filter_training_loop:
  "filter P (training_loop iteration n) = concat (replicate n (filter P iteration))"
  by (induction n) (simp_all add: training_loop_def)

lemma five_operations_training_iteration:
  "five_operations training_iteration =
     [forward_pass, loss_computation, zero_gradients, backward_pass, optimizer_step]"
  by (simp add: five_operations_def training_iteration_def zero_gradients_def
      forward_pass_def loss_computation_def backward_pass_def optimizer_step_def)

lemma five_operations_training_iteration_2:
  "five_operations training_iteration_2 =
     [forward_pass, loss_computation, zero_gradients, backward_pass, optimizer_step]"
  by (simp add: five_operations_def training_iteration_2_def zero_gradients_def
      forward_pass_def loss_computation_def backward_pass_def optimizer_step_def)

lemma run_calls_made_prefix:
  assumes "run_calls lib cs s = (r, made)"
  shows "\<exists>k. made = take k cs"
proof (cases r)
  case (Inl e)
  then obtain pre c post where "cs = pre @ c # post" "made = pre @ [c]"
    using assms run_calls_raises_iff[of lib cs s e made] by auto
  then have "made = take (Suc (length pre)) cs" by simp
  then show ?thesis by blast
next
  case (Inr s')
  then have "made = take (length cs) cs"
    using assms run_calls_returns[of lib cs s s' made] by simp
  then show ?thesis by blast
qed

lemma filter_take_prefix: "\<exists>j. filter P (take k xs) = take j (filter P xs)"
proof (induction xs arbitrary: k)
  case Nil
  then show ?case by simp
next
  case (Cons x xs)
  show ?case
  proof (cases k)
    case 0
    have "filter P (take 0 (x # xs)) = take 0 (filter P (x # xs))" by simp
    then show ?thesis unfolding 0 by blast
  next
    case (Suc k')
    obtain j where j: "filter P (take k' xs) = take j (filter P xs)"
      using Cons.IH by blast
    show ?thesis
    proof (cases "P x")
      case True
      then have "filter P (take k (x # xs)) = take (Suc j) (filter P (x # xs))"
        using Suc j by simp
      then show ?thesis by blast
    next
      case False
      then have "filter P (take k (x # xs)) = take j (filter P (x # xs))"
        using Suc j by simp
      then show ?thesis by blast
    qed
  qed
qed

text \<open>
  C3, as the code has it. In every iteration of the inner training loop, in both
  notebooks, the five operations are performed in the order: forward pass, loss
  computation, zero gradients, backward pass, optimizer step. Whatever the calls do,
  the operations performed over \<open>n\<close> batches are an initial part of \<open>n\<close> repetitions of
  this order, and all of it when the loop returns.
\<close>

theorem training_step_order:
  assumes "iteration = training_iteration \<or> iteration = training_iteration_2"
    and "run_calls lib (training_loop iteration n) s = (r, made)"
  shows "(\<exists>k. five_operations made =
               take k (concat (replicate n
                 [forward_pass, loss_computation, zero_gradients, backward_pass,
                  optimizer_step])))
         \<and> ((\<exists>s'. r = Inr s') \<longrightarrow>
              five_operations made =
                concat (replicate n
                  [forward_pass, loss_computation, zero_gradients, backward_pass,
                   optimizer_step]))"
proof -
  let ?order = "[forward_pass, loss_computation, zero_gradients, backward_pass, optimizer_step]"
  have it: "five_operations iteration = ?order"
    using assms(1) five_operations_training_iteration five_operations_training_iteration_2
    by auto
  have whole: "five_operations (training_loop iteration n) = concat (replicate n ?order)"
    using it filter_training_loop[of _ iteration n] by (simp add: five_operations_def)
  obtain k where k: "made = take k (training_loop iteration n)"
    using run_calls_made_prefix[OF assms(2)] by blast
  obtain j where "five_operations made = take j (five_operations (training_loop iteration n))"
    unfolding k five_operations_def using filter_take_prefix by blast
  then have a: "\<exists>k. five_operations made = take k (concat (replicate n ?order))"
    using whole by auto
  have b: "(\<exists>s'. r = Inr s') \<longrightarrow> five_operations made = concat (replicate n ?order)"
  proof
    assume "\<exists>s'. r = Inr s'"
    then obtain s' where "run_calls lib (training_loop iteration n) s = (Inr s', made)"
      using assms(2) by blast
    then have "made = training_loop iteration n" by (rule run_calls_returns)
    then show "five_operations made = concat (replicate n ?order)" using whole by simp
  qed
  show ?thesis using a b by (rule conjI)
qed

theorem training_step_order_witness:
  "let lib = (\<lambda>c s. Inr (Suc s)) :: call \<Rightarrow> nat \<Rightarrow> exn + nat
   in run_calls lib (training_loop training_iteration 2) 0
        = (Inr 22, training_iteration @ training_iteration)
      \<and> five_operations (training_iteration @ training_iteration) =
          concat (replicate 2
            [forward_pass, loss_computation, zero_gradients, backward_pass, optimizer_step])"
proof -
  let ?lib = "(\<lambda>c s. Inr (Suc s)) :: call \<Rightarrow> nat \<Rightarrow> exn + nat"
  have run: "run_calls ?lib (training_loop training_iteration 2) 0
               = (Inr 22, training_iteration @ training_iteration)"
    by (simp add: training_loop_def training_iteration_def numeral_2_eq_2)
  have it: "training_iteration = training_iteration \<or> training_iteration = training_iteration_2"
    by simp
  have "five_operations (training_iteration @ training_iteration) =
          concat (replicate 2
            [forward_pass, loss_computation, zero_gradients, backward_pass, optimizer_step])"
    using training_step_order[OF it run] by blast
  with run show ?thesis
    unfolding Let_def by (rule conjI)
qed

text \<open>
  Zeroing the gradients is not the first of the five operations: it comes after the
  forward pass and the loss.
\<close>

theorem zero_gradients_not_first:
  "run_calls (\<lambda>c s. Inr (Suc s) :: exn + nat) (training_loop training_iteration 1) 0
     = (Inr 11, training_iteration)
   \<and> five_operations training_iteration =
       [forward_pass, loss_computation, zero_gradients, backward_pass, optimizer_step]
   \<and> five_operations training_iteration \<noteq>
       [zero_gradients, forward_pass, loss_computation, backward_pass, optimizer_step]"
proof -
  have run: "run_calls (\<lambda>c s. Inr (Suc s) :: exn + nat) (training_loop training_iteration 1) 0
               = (Inr 11, training_iteration)"
    by (simp add: training_loop_def training_iteration_def)
  have "forward_pass \<noteq> zero_gradients"
    by (simp add: forward_pass_def zero_gradients_def)
  then show ?thesis
    using run five_operations_training_iteration by simp
qed

end
